theory Spec2Isabelle
  imports Complex_Main "HOL-Library.AList" "HOL-Library.Multiset"
    "HOL-Library.Product_Lexorder"
begin

section \<open>JavaScript values used throughout\<close>

text \<open>
  JavaScript numbers are modelled as reals (scores, strengths) and integers (timestamps in
  milliseconds, Chrome tab ids); rounding of IEEE doubles is not modelled. Strings are
  8-bit \<open>string\<close>s; case folding is the ASCII one.
\<close>

definition toLowerChar :: "char \<Rightarrow> char" where
  "toLowerChar c =
     (case map_of (zip ''ABCDEFGHIJKLMNOPQRSTUVWXYZ'' ''abcdefghijklmnopqrstuvwxyz'') c of
        None \<Rightarrow> c
      | Some d \<Rightarrow> d)"

definition toLowerCase :: "string \<Rightarrow> string" where
  "toLowerCase s = map toLowerChar s"

text \<open>A JavaScript \<open>Set\<close> keeps its members in insertion order, each once.\<close>

definition set_add :: "'a list \<Rightarrow> 'a \<Rightarrow> 'a list" where
  "set_add s x = (if x \<in> set s then s else s @ [x])"

definition new_Set :: "'a list \<Rightarrow> 'a list" where
  "new_Set xs = foldl set_add [] xs"

section \<open>The persistent stores (db.js)\<close>

text \<open>
  An IndexedDB object store with \<open>keyPath: 'id'\<close> is a list of records whose ids are
  pairwise distinct. Only the fields that the modelled functions read or write are kept.
\<close>

record tabdoc =
  doc_id :: string
  tabId :: int
  url :: string
  title :: string
  entities :: "string list option"
  topics :: "string list option"
  isIndexed :: bool

record relationship =
  rel_id :: string
  tab1Id :: string
  tab2Id :: string
  strength :: real
  rel_type :: string
  createdAt :: int
  lastAccessedAt :: int
  accessCount :: nat
  commonDomain :: bool
  sharedEntities :: "string list"
  sharedTopics :: "string list"
  coOccurrenceScore :: real
  semanticScoreMeta :: "real option"
  aiReason :: "string option"
  isAIEnriched :: bool
  needsUpdate :: bool

datatype db_error = NotFound | ConstraintError


definition getTabByTabId :: "tabdoc list \<Rightarrow> int \<Rightarrow> tabdoc option" where
  "getTabByTabId tabs i = find (\<lambda>t. tabId t = i) tabs"

text \<open>\<open>getRelationship(id)\<close> is a primary-key lookup: it has one parameter.\<close>

definition getRelationship :: "relationship list \<Rightarrow> string \<Rightarrow> relationship option" where
  "getRelationship rs k = find (\<lambda>r. rel_id r = k) rs"

definition deleteRelationship :: "string \<Rightarrow> relationship list \<Rightarrow> relationship list" where
  "deleteRelationship k rs = filter (\<lambda>r. rel_id r \<noteq> k) rs"

text \<open>
  \<open>updateRelationship(id, updates)\<close> reads the stored record, merges the updates over it
  and puts it back; it rejects when the record is missing.
\<close>

definition updateRelationship ::
  "string \<Rightarrow> (relationship \<Rightarrow> relationship) \<Rightarrow> relationship list
     \<Rightarrow> db_error + relationship list" where
  "updateRelationship k updates rs =
     (case getRelationship rs k of
        None \<Rightarrow> Inl NotFound
      | Some rel \<Rightarrow> Inr (map (\<lambda>x. if rel_id x = k then updates rel else x) rs))"

definition addRelationship :: "relationship \<Rightarrow> relationship list \<Rightarrow> db_error + relationship list" where
  "addRelationship r rs =
     (if rel_id r \<in> rel_id ` set rs then Inl ConstraintError else Inr (rs @ [r]))"

section \<open>Relationships between tabs (relationships.js)\<close>

definition strengthenRelationship :: "int \<Rightarrow> string \<Rightarrow> relationship list \<Rightarrow> relationship list" where
  "strengthenRelationship now k rs =
     (case getRelationship rs k of
        None \<Rightarrow> rs
      | Some rel \<Rightarrow>
          (let newStrength = min (strength rel + 0.1) 1;
               newAccessCount = accessCount rel + 1
           in case updateRelationship k
                 (\<lambda>r. r\<lparr>strength := newStrength, accessCount := newAccessCount,
                         lastAccessedAt := now\<rparr>) rs of
                Inl e \<Rightarrow> rs
              | Inr rs' \<Rightarrow> rs'))"

text \<open>
  \<open>createBasicRelationships(tab1Id, tab2Id, reason)\<close>. The clock \<open>now\<close>, the random
  suffix \<open>fresh\<close> of the new id and the URL parser \<open>hostname\<close> (\<open>None\<close> when
  \<open>new URL\<close> throws) are inputs. The existence check passes two arguments to the
  one-parameter \<open>getRelationship\<close>, so it looks the first tab document's id up as a
  relationship key. Every failure is swallowed by the function's \<open>catch\<close>.
\<close>

definition createBasicRelationships ::
  "(string \<Rightarrow> string option) \<Rightarrow> int \<Rightarrow> string \<Rightarrow> tabdoc list
     \<Rightarrow> int \<Rightarrow> int \<Rightarrow> string \<Rightarrow> relationship list \<Rightarrow> relationship list" where
  "createBasicRelationships hostname now fresh tabs t1 t2 reason rs =
     (case (getTabByTabId tabs t1, getTabByTabId tabs t2) of
        (Some tab1, Some tab2) \<Rightarrow>
          (case getRelationship rs (doc_id tab1) of
             Some existing \<Rightarrow> strengthenRelationship now (rel_id existing) rs
           | None \<Rightarrow>
               (case (hostname (url tab1), hostname (url tab2)) of
                  (Some h1, Some h2) \<Rightarrow>
                    (case addRelationship
                       \<lparr>rel_id = ''rel_'' @ fresh, tab1Id = doc_id tab1, tab2Id = doc_id tab2,
                        strength = 0.3, rel_type = reason,
                        createdAt = now, lastAccessedAt = now, accessCount = 1,
                        commonDomain = (h1 = h2), sharedEntities = [], sharedTopics = [],
                        coOccurrenceScore = 0, semanticScoreMeta = None, aiReason = None,
                        isAIEnriched = False, needsUpdate = False\<rparr> rs of
                       Inl e \<Rightarrow> rs
                     | Inr rs' \<Rightarrow> rs')
                | _ \<Rightarrow> rs))
      | _ \<Rightarrow> rs)"

text \<open>
  The result of \<open>analyzeSemanticRelationship\<close>: \<open>None\<close> is its \<open>null\<close> (Prompt API
  missing or unavailable, or any exception). The language model's answer is an input;
  \<open>parsed\<close> is the parsed score (\<open>None\<close> for \<open>NaN\<close>), clamped as the source does.
\<close>

record analysis =
  semanticScore :: real
  relationshipType :: string
  reason :: string

definition mk_analysis :: "real option \<Rightarrow> string \<Rightarrow> string \<Rightarrow> analysis" where
  "mk_analysis parsed ty why =
     \<lparr>semanticScore = (case parsed of None \<Rightarrow> 0 | Some score \<Rightarrow> min (max score 0) 1),
      relationshipType = ty, reason = why\<rparr>"





subsection \<open>Decay\<close>

definition oneWeek :: int where
  "oneWeek = 7 * 24 * 60 * 60 * 1000"

definition timeSinceAccess :: "int \<Rightarrow> relationship \<Rightarrow> int" where
  "timeSinceAccess now rel = now - lastAccessedAt rel"

definition decayedStrength :: "int \<Rightarrow> relationship \<Rightarrow> real" where
  "decayedStrength now rel =
     (let weeksInactive = real_of_int (timeSinceAccess now rel) / real_of_int oneWeek;
          decayAmount = min (weeksInactive * 0.05) 0.3
      in max (strength rel - decayAmount) 0)"

text \<open>
  The loop of \<open>applyRelationshipDecay\<close> over the snapshot, threading the store. A
  rejected update leaves the loop through the function's single \<open>catch\<close>.
\<close>

fun decay_loop :: "int \<Rightarrow> relationship list \<Rightarrow> relationship list \<Rightarrow> relationship list" where
  "decay_loop now [] st = st"
| "decay_loop now (rel # rest) st =
     (if timeSinceAccess now rel > oneWeek then
        (let newStrength = decayedStrength now rel
         in if newStrength < 0.1 then decay_loop now rest (deleteRelationship (rel_id rel) st)
            else (case updateRelationship (rel_id rel) (\<lambda>r. r\<lparr>strength := newStrength\<rparr>) st of
                    Inl e \<Rightarrow> st
                  | Inr st' \<Rightarrow> decay_loop now rest st'))
      else decay_loop now rest st)"

definition applyRelationshipDecay :: "int \<Rightarrow> relationship list \<Rightarrow> relationship list" where
  "applyRelationshipDecay now rs = decay_loop now rs rs"

text \<open>What one relationship becomes in a sweep: dropped, decayed or kept as it is.\<close>

definition decayOne :: "int \<Rightarrow> relationship \<Rightarrow> relationship option" where
  "decayOne now rel =
     (if timeSinceAccess now rel > oneWeek then
        (if decayedStrength now rel < 0.1 then None
         else Some (rel\<lparr>strength := decayedStrength now rel\<rparr>))
      else Some rel)"

subsection \<open>Example stores\<close>

definition mkTab :: "string \<Rightarrow> int \<Rightarrow> string \<Rightarrow> string list \<Rightarrow> string list \<Rightarrow> bool \<Rightarrow> tabdoc" where
  "mkTab k i u es ts ix =
     \<lparr>doc_id = k, tabId = i, url = u, title = [], entities = Some es, topics = Some ts,
      isIndexed = ix\<rparr>"

definition mkRel :: "string \<Rightarrow> string \<Rightarrow> string \<Rightarrow> real \<Rightarrow> int \<Rightarrow> relationship" where
  "mkRel k a b s t =
     \<lparr>rel_id = k, tab1Id = a, tab2Id = b, strength = s, rel_type = ''navigation'',
      createdAt = 0, lastAccessedAt = t, accessCount = 1, commonDomain = False,
      sharedEntities = [], sharedTopics = [], coOccurrenceScore = 0,
      semanticScoreMeta = None, aiReason = None, isAIEnriched = False, needsUpdate = False\<rparr>"

text \<open>Two indexed tabs that share their one entity and their one topic.\<close>

definition ex_tabs :: "tabdoc list" where
  "ex_tabs = [mkTab ''tab_1_0'' 1 ''https://a.example/x'' [''Isabelle''] [''Logic''] True,
              mkTab ''tab_2_0'' 2 ''https://b.example/y'' [''isabelle''] [''logic''] True]"

text \<open>
  Three relationships, last accessed three, one and two weeks before the sweep at
  \<open>3 * oneWeek\<close>.
\<close>

definition ex_store :: "relationship list" where
  "ex_store = [mkRel ''rel_a'' ''t1'' ''t2'' (1/5) 0,
               mkRel ''rel_b'' ''t1'' ''t3'' (1/2) (2 * oneWeek),
               mkRel ''rel_c'' ''t2'' ''t3'' (1/2) oneWeek]"

section \<open>Sorting with a comparator\<close>

text \<open>
  \<open>Array.prototype.sort(compare)\<close> is stable, and for a consistent comparator its
  result does not depend on the engine's algorithm. It is modelled as the stable insertion
  sort: \<open>a\<close> goes before the first \<open>b\<close> with \<open>compare a b \<le> 0\<close>.
\<close>

fun js_insert :: "('a \<Rightarrow> 'a \<Rightarrow> 'n::{linorder,zero}) \<Rightarrow> 'a \<Rightarrow> 'a list \<Rightarrow> 'a list" where
  "js_insert compare a [] = [a]"
| "js_insert compare a (b # bs) =
     (if compare a b \<le> 0 then a # b # bs else b # js_insert compare a bs)"

definition js_sort :: "('a \<Rightarrow> 'a \<Rightarrow> 'n::{linorder,zero}) \<Rightarrow> 'a list \<Rightarrow> 'a list" where
  "js_sort compare xs = foldr (js_insert compare) xs []"

fun join :: "string \<Rightarrow> string list \<Rightarrow> string" where
  "join sep [] = []"
| "join sep [x] = x"
| "join sep (x # y # ys) = x @ sep @ join sep (y # ys)"

section \<open>Workflow detection (workflows.js)\<close>

record nav_target =
  nt_tabId :: string
  nt_url :: string

record navigation =
  nav_id :: string
  timestamp :: int
  toTab :: nav_target

record step =
  step_tabId :: string
  step_url :: string
  step_timestamp :: int

record sequence =
  tabs :: "step list"
  seq_length :: nat
  startTime :: int
  endTime :: int

text \<open>The inner loop over \<open>j\<close>: every step follows the previous one within 10 minutes.\<close>

fun isContiguous :: "navigation list \<Rightarrow> bool" where
  "isContiguous (a # b # rest) =
     (if timestamp b - timestamp a > 10 * 60 * 1000 then False else isContiguous (b # rest))"
| "isContiguous rest = True"

text \<open>\<open>sorted.slice(i, i + len)\<close> for \<open>i = 0, ..., sorted.length - len\<close>.\<close>

definition slices :: "nat \<Rightarrow> 'a list \<Rightarrow> 'a list list" where
  "slices len xs = map (\<lambda>i. take len (drop i xs)) [0 ..< Suc (length xs) - len]"

definition mk_sequence :: "nat \<Rightarrow> navigation list \<Rightarrow> sequence" where
  "mk_sequence len w =
     \<lparr>tabs = map (\<lambda>nav. \<lparr>step_tabId = nt_tabId (toTab nav), step_url = nt_url (toTab nav),
                           step_timestamp = timestamp nav\<rparr>) w,
      seq_length = len,
      startTime = timestamp (hd w),
      endTime = timestamp (last w)\<rparr>"

text \<open>
  \<open>extractSequences(minLength, maxLength)\<close> on the log \<open>navHistory\<close> that
  \<open>db.getRecentNavigations\<close> returned. A window of length 0 has no first element:
  reading its timestamp throws, and the \<open>catch\<close> returns the empty list.
\<close>

definition extractSequences :: "navigation list \<Rightarrow> nat \<Rightarrow> nat \<Rightarrow> sequence list" where
  "extractSequences navHistory minLength maxLength =
     (if length navHistory < minLength then []
      else if minLength = 0 then []
      else
        (let sorted = js_sort (\<lambda>a b. timestamp a - timestamp b) navHistory
         in concat (map (\<lambda>len. map (mk_sequence len) (filter isContiguous (slices len sorted)))
                      [minLength ..< Suc maxLength])))"

record occurrence =
  occ_start :: int
  occ_end :: int

record entry =
  pattern :: "string list"
  occurrences :: "occurrence list"
  frequency :: nat

definition seq_key :: "sequence \<Rightarrow> string" where
  "seq_key seq = join ''->'' (map step_url (tabs seq))"

text \<open>
  One iteration of the grouping loop. \<open>sequenceMap\<close> is a JavaScript \<open>Map\<close>: an
  association list in insertion order, updated in place.
\<close>

definition group_step :: "(string \<times> entry) list \<Rightarrow> sequence \<Rightarrow> (string \<times> entry) list" where
  "group_step sequenceMap seq =
     (let key = seq_key seq;
          m1 = (if map_of sequenceMap key = None
                then AList.update key
                       \<lparr>pattern = map step_url (tabs seq), occurrences = [], frequency = 0\<rparr>
                       sequenceMap
                else sequenceMap)
      in case map_of m1 key of
           None \<Rightarrow> m1
         | Some e \<Rightarrow>
             AList.update key
               (e\<lparr>occurrences := occurrences e @ [\<lparr>occ_start = startTime seq, occ_end = endTime seq\<rparr>],
                  frequency := frequency e + 1\<rparr>) m1)"

definition group_sequences :: "sequence list \<Rightarrow> (string \<times> entry) list" where
  "group_sequences seqs = foldl group_step [] seqs"

record workflow =
  wf_id :: string
  wf_pattern :: "string list"
  wf_frequency :: nat
  lastOccurrence :: int
  avgInterval :: real
  confidence :: real
  wf_type :: string

fun totalInterval :: "occurrence list \<Rightarrow> int" where
  "totalInterval (a # b # rest) = (occ_start b - occ_end a) + totalInterval (b # rest)"
| "totalInterval rest = 0"

text \<open>
  The body of the materialisation loop for one group with \<open>frequency \<ge> 3\<close>;
  \<open>suffix\<close> stands for \<open>Date.now()\<close> and the random part of the id. Reading the
  last occurrence of an empty list throws (\<open>None\<close>).
\<close>

definition mk_workflow :: "string \<Rightarrow> entry \<Rightarrow> workflow option" where
  "mk_workflow suffix data =
     (let sortedOccurrences = js_sort (\<lambda>a b. occ_start a - occ_start b) (occurrences data);
          total = totalInterval sortedOccurrences;
          avg = (if length sortedOccurrences > 1
                 then real_of_int total / real (length sortedOccurrences - 1) else 0)
      in if sortedOccurrences = [] then None
         else Some \<lparr>wf_id = ''workflow_'' @ suffix,
                    wf_pattern = pattern data,
                    wf_frequency = frequency data,
                    lastOccurrence = occ_start (last sortedOccurrences),
                    avgInterval = avg,
                    confidence = min (real (frequency data) / 10) 1,
                    wf_type = ''navigation_sequence''\<rparr>)"

text \<open>\<open>fresh i\<close> is the id suffix drawn for the \<open>i\<close>-th workflow pushed in this pass.\<close>

fun materialize :: "(nat \<Rightarrow> string) \<Rightarrow> nat \<Rightarrow> (string \<times> entry) list \<Rightarrow> workflow list option" where
  "materialize fresh i [] = Some []"
| "materialize fresh i ((key, data) # rest) =
     (if frequency data \<ge> 3 then
        (case mk_workflow (fresh i) data of
           None \<Rightarrow> None
         | Some w \<Rightarrow> map_option (\<lambda>ws. w # ws) (materialize fresh (Suc i) rest))
      else materialize fresh i rest)"

text \<open>\<open>db.upsertWorkflow\<close> is \<open>store.put\<close> on a store with \<open>keyPath: 'id'\<close>.\<close>

definition upsertWorkflow :: "workflow \<Rightarrow> workflow list \<Rightarrow> workflow list" where
  "upsertWorkflow w store =
     (if wf_id w \<in> wf_id ` set store
      then map (\<lambda>x. if wf_id x = wf_id w then w else x) store
      else store @ [w])"

text \<open>
  \<open>detectWorkflows()\<close>: the mined workflows and the workflow store afterwards. Any
  exception is caught and gives the empty result, with the store as it is.
\<close>

definition detectWorkflows ::
  "(nat \<Rightarrow> string) \<Rightarrow> navigation list \<Rightarrow> workflow list \<Rightarrow> workflow list \<times> workflow list" where
  "detectWorkflows fresh navHistory store =
     (let sequences = extractSequences navHistory 2 5
      in if length sequences = 0 then ([], store)
         else (case materialize fresh 0 (group_sequences sequences) of
                 None \<Rightarrow> ([], store)
               | Some found \<Rightarrow>
                   (let workflows = js_sort (\<lambda>a b. int (wf_frequency b) - int (wf_frequency a)) found
                    in (workflows, foldl (\<lambda>st w. upsertWorkflow w st) store workflows))))"

text \<open>How many candidate sequences of a log fall into the group with a given key.\<close>

definition occurrence_count :: "navigation list \<Rightarrow> string \<Rightarrow> nat" where
  "occurrence_count navHistory key =
     length (filter (\<lambda>seq. seq_key seq = key) (extractSequences navHistory 2 5))"

subsection \<open>Invariant of the grouping loop\<close>

text \<open>
  The frequency recorded for a key (0 when the key is absent), and what holds of the
  map throughout the loop: keys are distinct, every entry's pattern joins to its key, and
  its frequency is the number of its occurrences, at least one.
\<close>

definition freq_of :: "(string \<times> entry) list \<Rightarrow> string \<Rightarrow> nat" where
  "freq_of m k = (case map_of m k of None \<Rightarrow> 0 | Some e \<Rightarrow> frequency e)"

definition group_inv :: "(string \<times> entry) list \<Rightarrow> bool" where
  "group_inv m \<longleftrightarrow> distinct (map fst m) \<and>
     (\<forall>k e. map_of m k = Some e \<longrightarrow>
        join ''->'' (pattern e) = k \<and> frequency e = length (occurrences e) \<and> 1 \<le> frequency e)"

subsection \<open>An example log\<close>

definition visit :: "int \<Rightarrow> string \<Rightarrow> navigation" where
  "visit t u = \<lparr>nav_id = [], timestamp = t, toTab = \<lparr>nt_tabId = [], nt_url = u\<rparr>\<rparr>"

text \<open>Six visits one minute apart, alternating between two pages.\<close>

definition ex_log :: "navigation list" where
  "ex_log = [visit 0 ''A'', visit 60000 ''B'', visit 120000 ''A'', visit 180000 ''B'',
             visit 240000 ''A'', visit 300000 ''B'']"

section \<open>Ranking of suggestions (hybrid-scoring.js, lite-mode.js)\<close>

text \<open>
  A Chrome tab as the ranking reads it, and a scored candidate: the candidate tab's own
  fields (\<open>...candidateTab\<close>) with its composed score. The reason string and the score
  breakdown do not take part in the ordering and are left out.
\<close>

record tab =
  tab_id :: int
  tab_url :: string
  tab_title :: string

record suggestion =
  sg_tab :: tab
  score :: real


text \<open>
  The workflow prediction handed to the hybrid mode: the id of the predicted tab, which
  is compared with \<open>===\<close> to the candidate's numeric id, and the confidence.
\<close>

datatype js_key = Num int | Str string







text \<open>
  The order the ranking is meant to produce: higher score first, and among equal scores
  the smaller tab id first. \<open>rank_key\<close> is the same order as a sort key.
\<close>

definition ranks_before :: "suggestion \<Rightarrow> suggestion \<Rightarrow> bool" where
  "ranks_before a b \<longleftrightarrow>
     score b < score a \<or> (score a = score b \<and> tab_id (sg_tab a) < tab_id (sg_tab b))"

definition rank_key :: "suggestion \<Rightarrow> real \<times> int" where
  "rank_key a = (- score a, tab_id (sg_tab a))"



subsection \<open>Example tabs\<close>






section \<open>The text index (tfidf.js)\<close>

subsection \<open>Tokenisation\<close>

text \<open>
  Texts are ASCII strings. On ASCII, \<open>normalize('NFD')\<close> and the removal of the
  combining marks U+0300 to U+036F change nothing, \<open>\w\<close> is a letter, a digit or the
  underscore, and \<open>\s\<close> is one of tab, line feed, vertical tab, form feed, carriage
  return and space.
\<close>

definition isWordChar :: "char \<Rightarrow> bool" where
  "isWordChar c \<longleftrightarrow>
     c \<in> set ''abcdefghijklmnopqrstuvwxyzABCDEFGHIJKLMNOPQRSTUVWXYZ0123456789_''"

definition isSpaceChar :: "char \<Rightarrow> bool" where
  "isSpaceChar c \<longleftrightarrow> (of_char c :: nat) \<in> {9, 10, 11, 12, 13, 32}"

definition isDigitChar :: "char \<Rightarrow> bool" where
  "isDigitChar c \<longleftrightarrow> c \<in> set ''0123456789''"

definition isTrimChar :: "char \<Rightarrow> bool" where
  "isTrimChar c \<longleftrightarrow> c = CHR ''-'' \<or> c = CHR 0x27"

text \<open>\<open>.replace(/[^\w\s'-]/g, ' ')\<close>\<close>

definition blankPunctuation :: "string \<Rightarrow> string" where
  "blankPunctuation s =
     map (\<lambda>c. if isWordChar c \<or> isSpaceChar c \<or> isTrimChar c then c else CHR '' '') s"

text \<open>
  \<open>.split(/\s+/)\<close>: the pieces between maximal runs of white space, with an empty
  piece before a leading and after a trailing run. \<open>inRun\<close> tells that the previous
  character was white space; \<open>cur\<close> is the current piece, reversed.
\<close>

fun splitSpaces :: "bool \<Rightarrow> string \<Rightarrow> string \<Rightarrow> string list" where
  "splitSpaces inRun cur [] = [rev cur]"
| "splitSpaces inRun cur (c # cs) =
     (if isSpaceChar c
      then (if inRun then splitSpaces True cur cs else rev cur # splitSpaces True [] cs)
      else splitSpaces False (c # cur) cs)"

text \<open>\<open>word.replace(/^[-']+|[-']+$/g, '')\<close>\<close>

definition trimWord :: "string \<Rightarrow> string" where
  "trimWord w = rev (dropWhile isTrimChar (rev (dropWhile isTrimChar w)))"

definition tokenize :: "string \<Rightarrow> string list" where
  "tokenize text =
     filter (\<lambda>word. length word > 2 \<and> \<not> (word \<noteq> [] \<and> list_all isDigitChar word))
       (map trimWord (splitSpaces False [] (blankPunctuation (toLowerCase text))))"

subsection \<open>The index state\<close>

text \<open>
  A JavaScript \<open>Map\<close> from terms to counts is an association list in insertion order;
  \<open>set\<close> on a present key keeps its place (\<open>AList.update\<close>), \<open>delete\<close> removes the
  key (\<open>AList.delete\<close>). Document ids are Chrome tab ids. The metadata of a document is a
  JSON object.
\<close>

datatype json =
  JNull | JBool bool | JNum int | JStr string | JArr "json list" | JObj "(string \<times> json) list"

type_synonym counts = "(string \<times> nat) list"

record document =
  d_id :: int
  d_text :: string
  d_metadata :: "(string \<times> json) list"

record doc_terms =
  tf_id :: int
  termFreq :: counts
  terms :: "string list"
  uniqueTerms :: nat
  totalTerms :: nat
  tf_metadata :: "(string \<times> json) list"

record tfidf =
  documents :: "document list"
  documentFreq :: counts
  termFreqs :: "doc_terms list"
  globalTermFreq :: counts
  totalTermCount :: nat

definition new_TFIDF :: tfidf where
  "new_TFIDF = \<lparr>documents = [], documentFreq = [], termFreqs = [], globalTermFreq = [],
                 totalTermCount = 0\<rparr>"

text \<open>\<open>map.get(term) || d\<close>: the default also replaces a stored 0.\<close>

definition get_or :: "nat \<Rightarrow> counts \<Rightarrow> string \<Rightarrow> nat" where
  "get_or d m term = (case map_of m term of None \<Rightarrow> d | Some n \<Rightarrow> if n = 0 then d else n)"

subsection \<open>Filtering\<close>

definition isStopWord :: "tfidf \<Rightarrow> string \<Rightarrow> bool" where
  "isStopWord s term =
     (let numDocs = length (documents s)
      in if numDocs < 3 then False
         else (let df = get_or 0 (documentFreq s) term;
                   docFrequency = real df / real numDocs
               in docFrequency > 0.4))"

definition keepTerm :: "tfidf \<Rightarrow> string \<Rightarrow> bool" where
  "keepTerm s term =
     (let numDocs = length (documents s)
      in if length term < 3 \<or> length term > 30 then False
         else if isStopWord s term then False
         else if numDocs > 10 \<and> get_or 0 (documentFreq s) term = 1 then False
         else True)"

definition filterTerms :: "tfidf \<Rightarrow> string list \<Rightarrow> string list" where
  "filterTerms s ts = filter (keepTerm s) ts"

text \<open>\<open>extractNGrams(tokens, n)\<close>: \<open>tokens.slice(i, i + n).join('_')\<close> for every start.\<close>

definition extractNGrams :: "string list \<Rightarrow> nat \<Rightarrow> string list" where
  "extractNGrams tokens n = map (join ''_'') (slices n tokens)"

subsection \<open>Adding and removing documents\<close>

text \<open>\<open>m.set(term, (m.get(term) || 0) + 1)\<close>\<close>

definition count_up :: "counts \<Rightarrow> string \<Rightarrow> counts" where
  "count_up m term = AList.update term (get_or 0 m term + 1) m"

text \<open>
  The document-frequency step of \<open>addDocument\<close>:
  \<open>if (!df.has(term)) df.set(term, 0); df.set(term, df.get(term) + 1)\<close>
\<close>

definition df_up :: "counts \<Rightarrow> string \<Rightarrow> counts" where
  "df_up df term =
     (let df1 = (if map_of df term = None then AList.update term 0 df else df)
      in case map_of df1 term of
           None \<Rightarrow> df1
         | Some n \<Rightarrow> AList.update term (n + 1) df1)"

definition addDocument :: "string \<Rightarrow> int \<Rightarrow> (string \<times> json) list \<Rightarrow> tfidf \<Rightarrow> tfidf" where
  "addDocument text ident metadata s =
     (let tokens = tokenize text;
          s1 = s\<lparr>globalTermFreq := foldl count_up (globalTermFreq s) tokens,
                 totalTermCount := totalTermCount s + length tokens\<rparr>;
          filteredTokens = filterTerms s1 tokens;
          bigrams = extractNGrams filteredTokens 2;
          trigrams = extractNGrams filteredTokens 3;
          allTerms = filteredTokens @ bigrams @ trigrams;
          tf = foldl count_up [] allTerms;
          unique = new_Set allTerms
      in s1\<lparr>documentFreq := foldl df_up (documentFreq s1) unique,
             termFreqs := termFreqs s1 @
               [\<lparr>tf_id = ident, termFreq = tf, terms = allTerms, uniqueTerms = length unique,
                 totalTerms = length allTerms, tf_metadata = metadata\<rparr>],
             documents := documents s1 @
               [\<lparr>d_id = ident, d_text = text, d_metadata = metadata\<rparr>]\<rparr>)"

fun findIndex :: "('a \<Rightarrow> bool) \<Rightarrow> 'a list \<Rightarrow> nat option" where
  "findIndex P [] = None"
| "findIndex P (x # xs) = (if P x then Some 0 else map_option Suc (findIndex P xs))"

text \<open>\<open>xs.splice(index, 1)\<close>\<close>

definition splice1 :: "nat \<Rightarrow> 'a list \<Rightarrow> 'a list" where
  "splice1 index xs = take index xs @ drop (Suc index) xs"

text \<open>
  Where \<open>removeDocument\<close> leaves the modelled states: reading \<open>terms\<close> of a missing
  record throws, and decrementing a term that has no count stores \<open>NaN\<close>.
\<close>

datatype fault = TypeError | NotANumber

text \<open>
  The document-frequency step of \<open>removeDocument\<close>:
  \<open>const freq = df.get(term); if (freq <= 1) df.delete(term); else df.set(term, freq - 1)\<close>
\<close>

definition df_down :: "counts \<Rightarrow> string \<Rightarrow> fault + counts" where
  "df_down df term =
     (case map_of df term of
        None \<Rightarrow> Inl NotANumber
      | Some freq \<Rightarrow>
          if freq \<le> 1 then Inr (AList.delete term df)
          else Inr (AList.update term (freq - 1) df))"

fun df_down_all :: "counts \<Rightarrow> string list \<Rightarrow> fault + counts" where
  "df_down_all df [] = Inr df"
| "df_down_all df (term # rest) =
     (case df_down df term of Inl e \<Rightarrow> Inl e | Inr df' \<Rightarrow> df_down_all df' rest)"

definition removeDocument :: "int \<Rightarrow> tfidf \<Rightarrow> fault + tfidf" where
  "removeDocument ident s =
     (case findIndex (\<lambda>d. d_id d = ident) (documents s) of
        None \<Rightarrow> Inr s
      | Some index \<Rightarrow>
          if index \<ge> length (termFreqs s) then Inl TypeError
          else
            (let doc = termFreqs s ! index;
                 unique = new_Set (terms doc)
             in case df_down_all (documentFreq s) unique of
                  Inl e \<Rightarrow> Inl e
                | Inr df \<Rightarrow>
                    Inr (s\<lparr>documentFreq := df,
                           documents := splice1 index (documents s),
                           termFreqs := splice1 index (termFreqs s)\<rparr>)))"

subsection \<open>Scoring\<close>

definition avgDocLength :: "tfidf \<Rightarrow> real" where
  "avgDocLength s =
     real (foldl (\<lambda>acc d. acc + totalTerms d) 0 (termFreqs s)) / real (length (documents s))"

definition idf_bm25 :: "nat \<Rightarrow> nat \<Rightarrow> real" where
  "idf_bm25 numDocs df = ln ((real numDocs - real df + 0.5) / (real df + 0.5) + 1)"

text \<open>One round of the \<open>forEach\<close> of \<open>bm25\<close>, adding a term's share to the score.\<close>

definition bm25_step :: "tfidf \<Rightarrow> doc_terms \<Rightarrow> real \<Rightarrow> real \<Rightarrow> real \<Rightarrow> string \<Rightarrow> real" where
  "bm25_step s doc k1 b acc term =
     (let termFreqInDoc = get_or 0 (termFreq doc) term
      in if termFreqInDoc = 0 then acc
         else
           (let df = get_or 1 (documentFreq s) term;
                idf = idf_bm25 (length (documents s)) df;
                numerator = real termFreqInDoc * (k1 + 1);
                denominator = real termFreqInDoc
                    + k1 * (1 - b + b * (real (totalTerms doc) / avgDocLength s))
            in acc + idf * (numerator / denominator)))"

definition bm25_params :: "tfidf \<Rightarrow> string \<Rightarrow> int \<Rightarrow> real \<Rightarrow> real \<Rightarrow> real" where
  "bm25_params s queryText documentId k1 b =
     (let queryTerms = tokenize queryText;
          filteredQuery = filterTerms s queryTerms
      in case find (\<lambda>d. tf_id d = documentId) (termFreqs s) of
           None \<Rightarrow> 0
         | Some doc \<Rightarrow>
             if length (documents s) = 0 then 0
             else foldl (bm25_step s doc k1 b) 0 filteredQuery)"

text \<open>\<open>bm25(queryText, documentId)\<close> with the default parameters.\<close>

definition bm25 :: "tfidf \<Rightarrow> string \<Rightarrow> int \<Rightarrow> real" where
  "bm25 s queryText documentId = bm25_params s queryText documentId 1.5 0.75"

text \<open>
  One round of the \<open>forEach\<close> of \<open>cosineSimilarity\<close> on the triple
  \<open>(dotProduct, mag1, mag2)\<close>.
\<close>

definition cosine_step ::
  "tfidf \<Rightarrow> doc_terms \<Rightarrow> doc_terms \<Rightarrow> real \<times> real \<times> real \<Rightarrow> string \<Rightarrow> real \<times> real \<times> real" where
  "cosine_step s doc1 doc2 acc term =
     (case acc of (dotProduct, mag1, mag2) \<Rightarrow>
        (let freq1 = get_or 0 (termFreq doc1) term;
             freq2 = get_or 0 (termFreq doc2) term;
             tf1 = real freq1 / real (totalTerms doc1);
             tf2 = real freq2 / real (totalTerms doc2);
             df = get_or 1 (documentFreq s) term;
             idf = ln (real (length (documents s)) / real df);
             tfidf1 = tf1 * idf;
             tfidf2 = tf2 * idf
         in (dotProduct + tfidf1 * tfidf2, mag1 + tfidf1 * tfidf1, mag2 + tfidf2 * tfidf2)))"

definition cosineSimilarity :: "tfidf \<Rightarrow> int \<Rightarrow> int \<Rightarrow> real" where
  "cosineSimilarity s doc1Id doc2Id =
     (case (find (\<lambda>d. tf_id d = doc1Id) (termFreqs s),
            find (\<lambda>d. tf_id d = doc2Id) (termFreqs s)) of
        (Some doc1, Some doc2) \<Rightarrow>
          (let allTerms = new_Set (map fst (termFreq doc1) @ map fst (termFreq doc2))
           in case foldl (cosine_step s doc1 doc2) (0, 0, 0) allTerms of
                (dotProduct, mag1, mag2) \<Rightarrow>
                  if mag1 = 0 \<or> mag2 = 0 then 0
                  else dotProduct / (sqrt mag1 * sqrt mag2))
      | _ \<Rightarrow> 0)"

subsection \<open>Serialisation\<close>

text \<open>
  \<open>serialize\<close> builds a plain object and hands it to \<open>JSON.stringify\<close>;
  \<open>deserialize\<close> reads what \<open>JSON.parse\<close> returns. For a value made of objects,
  arrays, strings and integers the parsed value is the stringified one, so the text in
  between is left out: \<open>serialize\<close> gives the JSON value and \<open>deserialize\<close> takes it.
  \<open>Array.from(map)\<close> lists the entries of a \<open>Map\<close> as two-element arrays.
\<close>

definition pair_json :: "string \<times> nat \<Rightarrow> json" where
  "pair_json p = JArr [JStr (fst p), JNum (int (snd p))]"

definition counts_json :: "counts \<Rightarrow> json" where
  "counts_json m = JArr (map pair_json m)"

definition document_json :: "document \<Rightarrow> json" where
  "document_json d =
     JObj [(''id'', JNum (d_id d)), (''text'', JStr (d_text d)),
           (''metadata'', JObj (d_metadata d))]"

definition doc_terms_json :: "doc_terms \<Rightarrow> json" where
  "doc_terms_json tf =
     JObj [(''id'', JNum (tf_id tf)),
           (''termFreq'', counts_json (termFreq tf)),
           (''terms'', JArr (map JStr (terms tf))),
           (''uniqueTerms'', JNum (int (uniqueTerms tf))),
           (''totalTerms'', JNum (int (totalTerms tf))),
           (''metadata'', JObj (tf_metadata tf))]"

definition serialize :: "tfidf \<Rightarrow> json" where
  "serialize s =
     JObj [(''documents'', JArr (map document_json (documents s))),
           (''documentFreq'', counts_json (documentFreq s)),
           (''globalTermFreq'', counts_json (globalTermFreq s)),
           (''totalTermCount'', JNum (int (totalTermCount s))),
           (''termFreqs'', JArr (map doc_terms_json (termFreqs s)))]"

text \<open>
  Reading a parsed value. \<open>None\<close> stands for an exception of \<open>deserialize\<close> or for a
  value that is not an index of the modelled shape. \<open>get_field\<close> is property access;
  \<open>or_default\<close> is \<open>x || d\<close>, which replaces a missing and a falsy value.
\<close>

fun as_int :: "json \<Rightarrow> int option" where
  "as_int (JNum n) = Some n"
| "as_int j = None"

fun as_nat :: "json \<Rightarrow> nat option" where
  "as_nat (JNum n) = (if 0 \<le> n then Some (nat n) else None)"
| "as_nat j = None"

fun as_str :: "json \<Rightarrow> string option" where
  "as_str (JStr s) = Some s"
| "as_str j = None"

fun as_arr :: "json \<Rightarrow> json list option" where
  "as_arr (JArr xs) = Some xs"
| "as_arr j = None"

fun as_obj :: "json \<Rightarrow> (string \<times> json) list option" where
  "as_obj (JObj kvs) = Some kvs"
| "as_obj j = None"

fun get_field :: "string \<Rightarrow> json \<Rightarrow> json option" where
  "get_field k (JObj kvs) = map_of kvs k"
| "get_field k j = None"

fun falsy :: "json \<Rightarrow> bool" where
  "falsy JNull = True"
| "falsy (JBool b) = (\<not> b)"
| "falsy (JNum n) = (n = 0)"
| "falsy (JStr s) = (s = [])"
| "falsy j = False"

definition or_default :: "json option \<Rightarrow> json \<Rightarrow> json" where
  "or_default x d = (case x of None \<Rightarrow> d | Some j \<Rightarrow> if falsy j then d else j)"

text \<open>\<open>new Map(pairs)\<close> sets the pairs one after the other.\<close>

definition new_Map :: "(string \<times> nat) list \<Rightarrow> counts" where
  "new_Map pairs = foldl (\<lambda>m p. AList.update (fst p) (snd p) m) [] pairs"

fun pair_of_json :: "json \<Rightarrow> (string \<times> nat) option" where
  "pair_of_json (JArr [JStr k, JNum n]) = (if 0 \<le> n then Some (k, nat n) else None)"
| "pair_of_json j = None"

definition counts_of_json :: "json \<Rightarrow> counts option" where
  "counts_of_json j =
     Option.bind (as_arr j) (\<lambda>ps. map_option new_Map (those (map pair_of_json ps)))"

definition document_of_json :: "json \<Rightarrow> document option" where
  "document_of_json j =
     Option.bind (Option.bind (get_field ''id'' j) as_int) (\<lambda>i.
     Option.bind (Option.bind (get_field ''text'' j) as_str) (\<lambda>t.
     Option.bind (Option.bind (get_field ''metadata'' j) as_obj) (\<lambda>m.
       Some \<lparr>d_id = i, d_text = t, d_metadata = m\<rparr>)))"

definition doc_terms_of_json :: "json \<Rightarrow> doc_terms option" where
  "doc_terms_of_json j =
     Option.bind (Option.bind (get_field ''id'' j) as_int) (\<lambda>i.
     Option.bind (Option.bind (get_field ''termFreq'' j) counts_of_json) (\<lambda>tf.
     Option.bind (Option.bind (Option.bind (get_field ''terms'' j) as_arr)
                    (\<lambda>ts. those (map as_str ts))) (\<lambda>ts.
     Option.bind (Option.bind (get_field ''uniqueTerms'' j) as_nat) (\<lambda>u.
     Option.bind (Option.bind (get_field ''totalTerms'' j) as_nat) (\<lambda>n.
     Option.bind (as_obj (or_default (get_field ''metadata'' j) (JObj []))) (\<lambda>m.
       Some \<lparr>tf_id = i, termFreq = tf, terms = ts, uniqueTerms = u, totalTerms = n,
             tf_metadata = m\<rparr>))))))"

definition deserialize :: "json \<Rightarrow> tfidf option" where
  "deserialize parsed =
     Option.bind (Option.bind (Option.bind (get_field ''documents'' parsed) as_arr)
                    (\<lambda>ds. those (map document_of_json ds))) (\<lambda>docs.
     Option.bind (Option.bind (get_field ''documentFreq'' parsed) counts_of_json) (\<lambda>df.
     Option.bind (counts_of_json (or_default (get_field ''globalTermFreq'' parsed) (JArr []))) (\<lambda>gtf.
     Option.bind (as_nat (or_default (get_field ''totalTermCount'' parsed) (JNum 0))) (\<lambda>total.
     Option.bind (Option.bind (Option.bind (get_field ''termFreqs'' parsed) as_arr)
                    (\<lambda>rs. those (map doc_terms_of_json rs))) (\<lambda>recs.
       Some \<lparr>documents = docs, documentFreq = df, termFreqs = recs, globalTermFreq = gtf,
             totalTermCount = total\<rparr>)))))"

text \<open>A \<open>Map\<close> has each key once: the condition under which a list stands for one.\<close>

definition maps_wellformed :: "tfidf \<Rightarrow> bool" where
  "maps_wellformed s \<longleftrightarrow>
     distinct (map fst (documentFreq s)) \<and> distinct (map fst (globalTermFreq s))
     \<and> (\<forall>r \<in> set (termFreqs s). distinct (map fst (termFreq r)))"

subsection \<open>Index states that the operations produce\<close>

text \<open>
  The states reachable from the empty index by \<open>addDocument\<close> and \<open>removeDocument\<close>
  (a removal that leaves the modelled states reaches nothing).
\<close>

inductive reachable :: "tfidf \<Rightarrow> bool" where
  reach_new: "reachable new_TFIDF"
| reach_add: "reachable s \<Longrightarrow> reachable (addDocument text ident metadata s)"
| reach_remove: "reachable s \<Longrightarrow> removeDocument ident s = Inr s' \<Longrightarrow> reachable s'"

text \<open>
  In how many stored documents a term occurs, and the invariant of reachable states:
  documents and term records are aligned, the document-frequency map has distinct keys
  and holds exactly the positive occurrence counts, and every term record agrees with its
  own term list.
\<close>

definition df_count :: "doc_terms list \<Rightarrow> string \<Rightarrow> nat" where
  "df_count rs t = length (filter (\<lambda>r. t \<in> set (terms r)) rs)"

definition record_ok :: "doc_terms \<Rightarrow> bool" where
  "record_ok r \<longleftrightarrow>
     totalTerms r = length (terms r) \<and> (\<forall>t. get_or 0 (termFreq r) t = count_list (terms r) t)"

definition index_inv :: "tfidf \<Rightarrow> bool" where
  "index_inv s \<longleftrightarrow>
     map d_id (documents s) = map tf_id (termFreqs s)
     \<and> distinct (map fst (documentFreq s))
     \<and> (\<forall>t. map_of (documentFreq s) t =
              (if df_count (termFreqs s) t = 0 then None else Some (df_count (termFreqs s) t)))
     \<and> (\<forall>r \<in> set (termFreqs s). record_ok r)"

text \<open>The count a map stores for a term, 0 when the term is absent.\<close>

definition stored :: "counts \<Rightarrow> string \<Rightarrow> nat" where
  "stored m t = (case map_of m t of None \<Rightarrow> 0 | Some n \<Rightarrow> n)"


text \<open>
  What one query term adds to the BM25 score of a document, as the formula is usually
  written: \<open>idf * (tf * (k1 + 1)) / (tf + k1 * (1 - b + b * (docLen / avgDocLen)))\<close> with
  \<open>idf = ln ((N - df + 0.5) / (df + 0.5) + 1)\<close>, and nothing for a term the document
  does not have.
\<close>

definition bm25_share :: "tfidf \<Rightarrow> doc_terms \<Rightarrow> real \<Rightarrow> real \<Rightarrow> string \<Rightarrow> real" where
  "bm25_share s doc k1 b t =
     (let tf = real (get_or 0 (termFreq doc) t);
          N = real (length (documents s));
          df = real (get_or 1 (documentFreq s) t);
          docLen = real (totalTerms doc);
          idf = ln ((N - df + 0.5) / (df + 0.5) + 1)
      in if tf = 0 then 0
         else idf * (tf * (k1 + 1)) / (tf + k1 * (1 - b + b * (docLen / avgDocLength s))))"

subsection \<open>Example indexes\<close>

text \<open>
  An index holding one document with id 1, and the three-document corpus
  "apple banana cherry", "banana cherry date", "cherry date egg".
\<close>

definition ex_dup :: tfidf where
  "ex_dup = addDocument ''alpha beta'' 1 [] new_TFIDF"

definition ex_corpus :: tfidf where
  "ex_corpus = addDocument ''cherry date egg'' 3 []
                 (addDocument ''banana cherry date'' 2 []
                    (addDocument ''apple banana cherry'' 1 [] new_TFIDF))"


section \<open>Auxiliary facts\<close>

lemma if_then_branch: "(if P then A else B) \<Longrightarrow> P \<Longrightarrow> A"
  by simp


section \<open>Properties of the relationship store\<close>

subsection \<open>The decay sweep in closed form\<close>

text \<open>
  With pairwise distinct ids each iteration touches only its own record, so the sweep is
  \<open>decayOne\<close> applied to every relationship, and no update is ever rejected.
\<close>

lemma getRelationship_first:
  "rel_id rel \<notin> rel_id ` set done \<Longrightarrow> getRelationship (done @ rel # rest) (rel_id rel) = Some rel"
  by (induction "done") (auto simp: getRelationship_def)

lemma filter_other: "k \<notin> rel_id ` set xs \<Longrightarrow> filter (\<lambda>r. rel_id r \<noteq> k) xs = xs"
  by (induction xs) auto

lemma map_other: "k \<notin> rel_id ` set xs \<Longrightarrow> map (\<lambda>x. if rel_id x = k then y else x) xs = xs"
  by (induction xs) auto

lemma delete_middle:
  "rel_id rel \<notin> rel_id ` set done \<Longrightarrow> rel_id rel \<notin> rel_id ` set rest \<Longrightarrow>
   deleteRelationship (rel_id rel) (done @ rel # rest) = done @ rest"
  by (simp add: deleteRelationship_def filter_other)

lemma update_middle:
  "rel_id rel \<notin> rel_id ` set done \<Longrightarrow> rel_id rel \<notin> rel_id ` set rest \<Longrightarrow>
   updateRelationship (rel_id rel) f (done @ rel # rest) = Inr (done @ f rel # rest)"
  by (simp add: updateRelationship_def getRelationship_first map_other)

lemma decay_loop_closed:
  "distinct (map rel_id xs) \<Longrightarrow> rel_id ` set done \<inter> rel_id ` set xs = {} \<Longrightarrow>
   decay_loop now xs (done @ xs) = done @ List.map_filter (decayOne now) xs"
proof (induction xs arbitrary: "done")
  case Nil
  then show ?case by simp
next
  case (Cons rel rest)
  have a: "rel_id rel \<notin> rel_id ` set done" using Cons.prems(2) by auto
  have b: "rel_id rel \<notin> rel_id ` set rest" using Cons.prems(1) by auto
  have d: "distinct (map rel_id rest)" using Cons.prems(1) by simp
  have e: "rel_id ` set done \<inter> rel_id ` set rest = {}" using Cons.prems(2) by auto
  have f: "\<And>s. rel_id ` set (done @ [rel\<lparr>strength := s\<rparr>]) \<inter> rel_id ` set rest = {}"
    using Cons.prems(2) b by auto
  have g: "rel_id ` set (done @ [rel]) \<inter> rel_id ` set rest = {}"
    using Cons.prems(2) b by auto
  show ?case
    using Cons.IH[OF d e] Cons.IH[OF d f] Cons.IH[OF d g]
    by (simp add: delete_middle[OF a b] update_middle[OF a b] decayOne_def Let_def)
qed

lemma applyRelationshipDecay_closed:
  "distinct (map rel_id rs) \<Longrightarrow> applyRelationshipDecay now rs = List.map_filter (decayOne now) rs"
  using decay_loop_closed[of rs "[]" now] by (simp add: applyRelationshipDecay_def)

lemma decayedStrength_nonneg: "0 \<le> decayedStrength now rel"
  by (simp add: decayedStrength_def Let_def)

lemma decayOne_id: "decayOne now r = Some r' \<Longrightarrow> rel_id r' = rel_id r"
  by (auto simp: decayOne_def split: if_splits)

lemma set_map_filter: "set (List.map_filter f xs) = {y. \<exists>x \<in> set xs. f x = Some y}"
  by (induction xs) (auto simp: List.map_filter_simps split: option.splits)

text \<open>
  Claim C9. A decay sweep over a store with distinct ids (i) keeps every relationship
  accessed within the last week exactly as it is; (ii) for every older relationship
  computes the strength \<open>max (strength - min (weeksInactive * 0.05) 0.3) 0\<close>, which is
  never negative, removes the relationship when that value is below 0.1 and otherwise
  stores the relationship with that strength; (iii) produces nothing else: every
  relationship in the store afterwards is an untouched recent one or a decayed one of
  strength at least 0.1; (iv) so a store whose strengths are all at least 0.1 stays so.
\<close>

theorem applyRelationshipDecay_bounds:
  assumes "distinct (map rel_id rs)"
  shows "(\<forall>r \<in> set rs. timeSinceAccess now r \<le> oneWeek \<longrightarrow> r \<in> set (applyRelationshipDecay now rs))
    \<and> (\<forall>r \<in> set rs. timeSinceAccess now r > oneWeek \<longrightarrow>
          decayedStrength now r =
            max (strength r - min (real_of_int (now - lastAccessedAt r) / real_of_int oneWeek * 0.05) 0.3) 0
        \<and> 0 \<le> decayedStrength now r
        \<and> (if decayedStrength now r < 0.1
           then rel_id r \<notin> rel_id ` set (applyRelationshipDecay now rs)
           else r\<lparr>strength := decayedStrength now r\<rparr> \<in> set (applyRelationshipDecay now rs)))
    \<and> (\<forall>r' \<in> set (applyRelationshipDecay now rs).
          (r' \<in> set rs \<and> timeSinceAccess now r' \<le> oneWeek)
        \<or> (0.1 \<le> strength r'
           \<and> (\<exists>r \<in> set rs. timeSinceAccess now r > oneWeek
                 \<and> r' = r\<lparr>strength := decayedStrength now r\<rparr>)))
    \<and> ((\<forall>r \<in> set rs. 0.1 \<le> strength r)
          \<longrightarrow> (\<forall>r' \<in> set (applyRelationshipDecay now rs). 0.1 \<le> strength r'))"
proof -
  let ?out = "applyRelationshipDecay now rs"
  have out: "set ?out = {y. \<exists>x \<in> set rs. decayOne now x = Some y}"
    by (simp add: applyRelationshipDecay_closed[OF assms] set_map_filter)
  have inj: "\<And>x y. x \<in> set rs \<Longrightarrow> y \<in> set rs \<Longrightarrow> rel_id x = rel_id y \<Longrightarrow> x = y"
    using assms by (meson distinct_map inj_onD)
  have c1: "\<forall>r \<in> set rs. timeSinceAccess now r \<le> oneWeek \<longrightarrow> r \<in> set ?out"
  proof (intro ballI impI)
    fix r assume r: "r \<in> set rs" and young: "timeSinceAccess now r \<le> oneWeek"
    then have "decayOne now r = Some r" by (simp add: decayOne_def)
    with r show "r \<in> set ?out" unfolding out by blast
  qed
  have c2: "\<forall>r \<in> set rs. timeSinceAccess now r > oneWeek \<longrightarrow>
          decayedStrength now r =
            max (strength r - min (real_of_int (now - lastAccessedAt r) / real_of_int oneWeek * 0.05) 0.3) 0
        \<and> 0 \<le> decayedStrength now r
        \<and> (if decayedStrength now r < 0.1
           then rel_id r \<notin> rel_id ` set ?out
           else r\<lparr>strength := decayedStrength now r\<rparr> \<in> set ?out)"
  proof (intro ballI impI conjI)
    fix r assume r: "r \<in> set rs" and old: "oneWeek < timeSinceAccess now r"
    show "decayedStrength now r =
            max (strength r - min (real_of_int (now - lastAccessedAt r) / real_of_int oneWeek * 0.05) 0.3) 0"
      by (simp add: decayedStrength_def timeSinceAccess_def Let_def)
    show "0 \<le> decayedStrength now r" by (rule decayedStrength_nonneg)
    show "if decayedStrength now r < 0.1
           then rel_id r \<notin> rel_id ` set ?out
           else r\<lparr>strength := decayedStrength now r\<rparr> \<in> set ?out"
    proof (cases "decayedStrength now r < 0.1")
      case True
      have "rel_id r \<notin> rel_id ` set ?out"
      proof
        assume "rel_id r \<in> rel_id ` set ?out"
        then obtain y x where y: "rel_id y = rel_id r" and x: "x \<in> set rs" "decayOne now x = Some y"
          unfolding out by auto
        from decayOne_id[OF x(2)] y have "rel_id x = rel_id r" by simp
        with inj[OF x(1) r] have "x = r" by simp
        with x(2) old True show False by (simp add: decayOne_def)
      qed
      with True show ?thesis by simp
    next
      case False
      then have "decayOne now r = Some (r\<lparr>strength := decayedStrength now r\<rparr>)"
        using old by (simp add: decayOne_def)
      with r False show ?thesis unfolding out by auto
    qed
  qed
  have c3: "\<forall>r' \<in> set ?out.
          (r' \<in> set rs \<and> timeSinceAccess now r' \<le> oneWeek)
        \<or> (0.1 \<le> strength r'
           \<and> (\<exists>r \<in> set rs. timeSinceAccess now r > oneWeek
                 \<and> r' = r\<lparr>strength := decayedStrength now r\<rparr>))"
  proof
    fix r' assume "r' \<in> set ?out"
    then obtain x where x: "x \<in> set rs" "decayOne now x = Some r'"
      unfolding out by auto
    show "(r' \<in> set rs \<and> timeSinceAccess now r' \<le> oneWeek)
        \<or> (0.1 \<le> strength r'
           \<and> (\<exists>r \<in> set rs. timeSinceAccess now r > oneWeek
                 \<and> r' = r\<lparr>strength := decayedStrength now r\<rparr>))"
    proof (cases "timeSinceAccess now x > oneWeek")
      case True
      with x(2) have "r' = x\<lparr>strength := decayedStrength now x\<rparr>" "\<not> decayedStrength now x < 0.1"
        by (auto simp: decayOne_def split: if_splits)
      with x(1) True show ?thesis by auto
    next
      case False
      with x(2) have "r' = x" by (simp add: decayOne_def)
      with x(1) False show ?thesis by simp
    qed
  qed
  have c4: "(\<forall>r \<in> set rs. 0.1 \<le> strength r) \<longrightarrow> (\<forall>r' \<in> set ?out. 0.1 \<le> strength r')"
    using c3 by fastforce
  from c1 c2 c3 c4 show ?thesis by blast
qed

text \<open>The sweep on the example store: one relationship removed, one kept, one decayed.\<close>

theorem applyRelationshipDecay_bounds_witness:
  "distinct (map rel_id ex_store)
   \<and> map (\<lambda>r. (rel_id r, strength r)) (applyRelationshipDecay (3 * oneWeek) ex_store)
       = [(''rel_b'', 1/2), (''rel_c'', 2/5)]
   \<and> mkRel ''rel_b'' ''t1'' ''t3'' (1/2) (2 * oneWeek)
       \<in> set (applyRelationshipDecay (3 * oneWeek) ex_store)
   \<and> mkRel ''rel_c'' ''t2'' ''t3'' (2/5) oneWeek
       \<in> set (applyRelationshipDecay (3 * oneWeek) ex_store)
   \<and> ''rel_a'' \<notin> rel_id ` set (applyRelationshipDecay (3 * oneWeek) ex_store)"
proof -
  let ?a = "mkRel ''rel_a'' ''t1'' ''t2'' (1/5) 0"
  let ?b = "mkRel ''rel_b'' ''t1'' ''t3'' (1/2) (2 * oneWeek)"
  let ?c = "mkRel ''rel_c'' ''t2'' ''t3'' (1/2) oneWeek"
  have d: "distinct (map rel_id ex_store)"
    by (simp add: ex_store_def mkRel_def)
  have e: "map (\<lambda>r. (rel_id r, strength r)) (applyRelationshipDecay (3 * oneWeek) ex_store)
       = [(''rel_b'', 1/2), (''rel_c'', 2/5)]"
    by (simp add: applyRelationshipDecay_def ex_store_def mkRel_def timeSinceAccess_def
        decayedStrength_def oneWeek_def deleteRelationship_def updateRelationship_def
        getRelationship_def Let_def)
  have mem: "?a \<in> set ex_store" "?b \<in> set ex_store" "?c \<in> set ex_store"
    by (simp_all add: ex_store_def)
  have age: "oneWeek < timeSinceAccess (3 * oneWeek) ?a"
    "timeSinceAccess (3 * oneWeek) ?b \<le> oneWeek"
    "oneWeek < timeSinceAccess (3 * oneWeek) ?c"
    by (simp_all add: timeSinceAccess_def mkRel_def oneWeek_def)
  have str: "decayedStrength (3 * oneWeek) ?a < 0.1" "decayedStrength (3 * oneWeek) ?c = 2/5"
    by (simp_all add: decayedStrength_def timeSinceAccess_def mkRel_def oneWeek_def Let_def)
  have upd: "?c\<lparr>strength := 2/5\<rparr> = mkRel ''rel_c'' ''t2'' ''t3'' (2/5) oneWeek"
    "rel_id ?a = ''rel_a''"
    by (simp_all add: mkRel_def)
  note th = applyRelationshipDecay_bounds[OF d, of "3 * oneWeek"]
  from th[THEN conjunct1, THEN bspec, OF mem(2), THEN mp, OF age(2)]
  have b: "?b \<in> set (applyRelationshipDecay (3 * oneWeek) ex_store)" .
  from th[THEN conjunct2, THEN conjunct1, THEN bspec, OF mem(3), THEN mp, OF age(3),
      THEN conjunct2, THEN conjunct2]
  have "?c\<lparr>strength := 2/5\<rparr> \<in> set (applyRelationshipDecay (3 * oneWeek) ex_store)"
    by (simp add: str(2))
  then have c: "mkRel ''rel_c'' ''t2'' ''t3'' (2/5) oneWeek
       \<in> set (applyRelationshipDecay (3 * oneWeek) ex_store)"
    by (simp only: upd)
  from th[THEN conjunct2, THEN conjunct1, THEN bspec, OF mem(1), THEN mp, OF age(1),
      THEN conjunct2, THEN conjunct2]
  have "rel_id ?a \<notin> rel_id ` set (applyRelationshipDecay (3 * oneWeek) ex_store)"
    by (rule if_then_branch) (rule str(1))
  then have a: "''rel_a'' \<notin> rel_id ` set (applyRelationshipDecay (3 * oneWeek) ex_store)"
    by (simp add: upd)
  from d e b c a show ?thesis by (intro conjI)
qed

subsection \<open>Creation and enrichment at concrete inputs\<close>


text \<open>
  Claim C2, evaluated. Recording the navigation from tab 1 to tab 2 twice leaves two
  relationships for the same pair in the store, both at the initial strength 0.3 and
  access count 1: the existence check looks up the tab document id \<open>tab_1_0\<close> among the
  relationship ids, finds nothing, and the second call inserts again instead of
  strengthening.
\<close>

theorem createBasicRelationships_duplicates:
  "map (\<lambda>r. (rel_id r, tab1Id r, tab2Id r, strength r, accessCount r))
     (createBasicRelationships Some 2000 ''b'' ex_tabs 1 2 ''navigation''
        (createBasicRelationships Some 1000 ''a'' ex_tabs 1 2 ''navigation'' []))
   = [(''rel_a'', ''tab_1_0'', ''tab_2_0'', 3/10, 1), (''rel_b'', ''tab_1_0'', ''tab_2_0'', 3/10, 1)]"
  by (simp add: createBasicRelationships_def ex_tabs_def mkTab_def getTabByTabId_def
      getRelationship_def addRelationship_def)


section \<open>Properties of sorting\<close>

subsection \<open>Sorting keeps the elements\<close>

lemma set_js_insert: "set (js_insert c a xs) = insert a (set xs)"
  by (induction xs) auto

lemma set_js_sort: "set (js_sort c xs) = set xs"
  unfolding js_sort_def by (induction xs) (auto simp: set_js_insert)

lemma length_js_insert: "length (js_insert c a xs) = Suc (length xs)"
  by (induction xs) auto

lemma length_js_sort: "length (js_sort c xs) = length xs"
  unfolding js_sort_def by (induction xs) (auto simp: length_js_insert)

lemma js_sort_Nil_iff: "js_sort c xs = [] \<longleftrightarrow> xs = []"
  using length_js_sort[of c xs] by (metis length_0_conv)


text \<open>
  A comparator that compares a key is the library's stable \<open>sort_key\<close> on that key.
\<close>

lemma js_insert_insort_key:
  assumes "\<And>a b. c a b \<le> 0 \<longleftrightarrow> key a \<le> key b"
  shows "js_insert c a xs = insort_key key a xs"
  by (induction xs) (simp_all add: assms)

lemma js_sort_sort_key:
  assumes "\<And>a b. c a b \<le> 0 \<longleftrightarrow> key a \<le> key b"
  shows "js_sort c xs = sort_key key xs"
proof -
  have "js_insert c = insort_key key"
    by (intro ext) (rule js_insert_insort_key[OF assms])
  then show ?thesis by (simp add: js_sort_def sort_key_def)
qed


lemma sorted_map_sorted_wrt: "sorted (map f xs) = sorted_wrt (\<lambda>a b. f a \<le> f b) xs"
  by (induction xs) auto


section \<open>Properties of workflow detection\<close>

subsection \<open>Windows\<close>

text \<open>
  Every window has the requested length, so with \<open>minLength \<ge> 1\<close> the first and the
  last element that \<open>mk_sequence\<close> reads exist.
\<close>

lemma slices_length: "w \<in> set (slices len xs) \<Longrightarrow> length w = len"
  by (auto simp: slices_def)

lemma extractSequences_windows:
  assumes "sq \<in> set (extractSequences navHistory minLength maxLength)"
  shows "length (tabs sq) = seq_length sq \<and> minLength \<le> seq_length sq \<and> 1 \<le> seq_length sq"
proof -
  from assms have m: "minLength \<noteq> 0" by (auto simp: extractSequences_def split: if_splits)
  from assms obtain len w where
    "len \<in> set [minLength ..< Suc maxLength]"
    "w \<in> set (slices len (js_sort (\<lambda>a b. timestamp a - timestamp b) navHistory))"
    "sq = mk_sequence len w"
    by (auto simp: extractSequences_def Let_def split: if_splits)
  with m slices_length[of w len] show ?thesis by (auto simp: mk_sequence_def)
qed

subsection \<open>Grouping\<close>

lemma group_step_map_of:
  "map_of (group_step m s) k =
     (if k = seq_key s
      then Some (case map_of m k of
                   None \<Rightarrow> \<lparr>pattern = map step_url (tabs s),
                             occurrences = [\<lparr>occ_start = startTime s, occ_end = endTime s\<rparr>],
                             frequency = 1\<rparr>
                 | Some e \<Rightarrow> e\<lparr>occurrences := occurrences e @ [\<lparr>occ_start = startTime s, occ_end = endTime s\<rparr>],
                                frequency := frequency e + 1\<rparr>)
      else map_of m k)"
  by (auto simp: group_step_def Let_def update_conv' split: option.splits)

lemma group_step_distinct: "distinct (map fst m) \<Longrightarrow> distinct (map fst (group_step m s))"
  by (auto simp: group_step_def Let_def distinct_update split: option.splits)

lemma group_step_inv:
  assumes "group_inv m"
  shows "group_inv (group_step m s)"
proof -
  have d: "distinct (map fst m)"
    and old: "\<And>k e. map_of m k = Some e \<Longrightarrow>
        join ''->'' (pattern e) = k \<and> frequency e = length (occurrences e) \<and> 1 \<le> frequency e"
    using assms unfolding group_inv_def by blast+
  have "join ''->'' (pattern e) = k \<and> frequency e = length (occurrences e) \<and> 1 \<le> frequency e"
    if "map_of (group_step m s) k = Some e" for k e
  proof (cases "k = seq_key s")
    case False
    with that have "map_of m k = Some e" by (simp add: group_step_map_of)
    then show ?thesis by (rule old)
  next
    case True
    show ?thesis
    proof (cases "map_of m k")
      case None
      with that True show ?thesis by (auto simp: group_step_map_of seq_key_def)
    next
      case (Some e0)
      from old[OF Some] that True Some show ?thesis by (auto simp: group_step_map_of)
    qed
  qed
  with group_step_distinct[OF d] show ?thesis unfolding group_inv_def by blast
qed

lemma group_step_freq:
  "freq_of (group_step m s) k = freq_of m k + (if seq_key s = k then 1 else 0)"
  by (auto simp: freq_of_def group_step_map_of split: option.splits)

lemma foldl_group_inv: "group_inv m \<Longrightarrow> group_inv (foldl group_step m seqs)"
  by (induction seqs arbitrary: m) (auto simp: group_step_inv)

lemma foldl_group_freq:
  "freq_of (foldl group_step m seqs) k = freq_of m k + length (filter (\<lambda>s. seq_key s = k) seqs)"
  by (induction seqs arbitrary: m) (auto simp: group_step_freq)

lemma group_sequences_inv: "group_inv (group_sequences seqs)"
  unfolding group_sequences_def by (rule foldl_group_inv) (simp add: group_inv_def)

lemma group_sequences_freq:
  "freq_of (group_sequences seqs) k = length (filter (\<lambda>s. seq_key s = k) seqs)"
proof -
  have "freq_of [] k = 0" by (simp add: freq_of_def)
  then show ?thesis unfolding group_sequences_def by (simp add: foldl_group_freq)
qed

subsection \<open>Materialisation\<close>

lemma mk_workflow_Some:
  assumes "occurrences e \<noteq> []"
  shows "\<exists>w. mk_workflow sfx e = Some w \<and> wf_pattern w = pattern e
            \<and> wf_frequency w = frequency e \<and> confidence w = min (real (frequency e) / 10) 1"
  using assms by (simp add: mk_workflow_def Let_def js_sort_Nil_iff)

lemma materialize_spec:
  assumes "\<forall>p \<in> set m. frequency (snd p) = length (occurrences (snd p))"
  shows "\<exists>ws. materialize fresh i m = Some ws \<and>
           map (\<lambda>w. (wf_pattern w, wf_frequency w, confidence w)) ws =
           map (\<lambda>(k, e). (pattern e, frequency e, min (real (frequency e) / 10) 1))
               (filter (\<lambda>(k, e). 3 \<le> frequency e) m)"
  using assms
proof (induction m arbitrary: i)
  case Nil
  then show ?case by simp
next
  case (Cons p m)
  obtain k e where p: "p = (k, e)" by (cases p)
  have len: "frequency e = length (occurrences e)" using Cons.prems p by simp
  have rest: "\<forall>p \<in> set m. frequency (snd p) = length (occurrences (snd p))"
    using Cons.prems by simp
  show ?case
  proof (cases "3 \<le> frequency e")
    case False
    with Cons.IH[OF rest, where i = i] p show ?thesis by simp
  next
    case True
    with len have "occurrences e \<noteq> []" by auto
    from mk_workflow_Some[OF this, where sfx = "fresh i"] obtain w where
      w: "mk_workflow (fresh i) e = Some w" "wf_pattern w = pattern e"
         "wf_frequency w = frequency e" "confidence w = min (real (frequency e) / 10) 1"
      by blast
    from Cons.IH[OF rest, where i = "Suc i"] obtain ws where
      ws: "materialize fresh (Suc i) m = Some ws"
        "map (\<lambda>w. (wf_pattern w, wf_frequency w, confidence w)) ws =
           map (\<lambda>(k, e). (pattern e, frequency e, min (real (frequency e) / 10) 1))
               (filter (\<lambda>(k, e). 3 \<le> frequency e) m)"
      by blast
    from True p w ws show ?thesis by simp
  qed
qed

text \<open>What the mining pass returns, in terms of the groups.\<close>

lemma detectWorkflows_found:
  "\<exists>found. set (fst (detectWorkflows fresh navHistory store)) = set found \<and>
     map (\<lambda>w. (wf_pattern w, wf_frequency w, confidence w)) found =
     map (\<lambda>(k, e). (pattern e, frequency e, min (real (frequency e) / 10) 1))
         (filter (\<lambda>(k, e). 3 \<le> frequency e)
            (group_sequences (extractSequences navHistory 2 5)))"
proof (cases "extractSequences navHistory 2 5 = []")
  case True
  then show ?thesis
    by (intro exI[of _ "[]"]) (simp add: detectWorkflows_def group_sequences_def)
next
  case False
  let ?m = "group_sequences (extractSequences navHistory 2 5)"
  have inv: "group_inv ?m" by (rule group_sequences_inv)
  have "\<forall>p \<in> set ?m. frequency (snd p) = length (occurrences (snd p))"
  proof
    fix p assume "p \<in> set ?m"
    then have "map_of ?m (fst p) = Some (snd p)"
      using inv unfolding group_inv_def by simp
    then show "frequency (snd p) = length (occurrences (snd p))"
      using inv unfolding group_inv_def by blast
  qed
  from materialize_spec[OF this, where fresh = fresh and i = 0] obtain ws where
    ws: "materialize fresh 0 ?m = Some ws"
      "map (\<lambda>w. (wf_pattern w, wf_frequency w, confidence w)) ws =
       map (\<lambda>(k, e). (pattern e, frequency e, min (real (frequency e) / 10) 1))
           (filter (\<lambda>(k, e). 3 \<le> frequency e) ?m)"
    by blast
  from False ws(1) have "set (fst (detectWorkflows fresh navHistory store)) = set ws"
    by (simp add: detectWorkflows_def Let_def set_js_sort)
  with ws(2) show ?thesis by blast
qed

lemma in_found_iff:
  assumes "map (\<lambda>w. (wf_pattern w, wf_frequency w, confidence w)) found =
     map (\<lambda>(k, e). (pattern e, frequency e, min (real (frequency e) / 10) 1))
         (filter (\<lambda>(k, e). 3 \<le> frequency e) m)"
  shows "(\<exists>w \<in> set found. wf_pattern w = p \<and> wf_frequency w = f \<and> confidence w = c)
     \<longleftrightarrow> (\<exists>(k, e) \<in> set m. 3 \<le> frequency e \<and> pattern e = p \<and> frequency e = f
              \<and> min (real (frequency e) / 10) 1 = c)"
proof -
  have "(\<exists>w \<in> set found. wf_pattern w = p \<and> wf_frequency w = f \<and> confidence w = c)
     \<longleftrightarrow> (p, f, c) \<in> set (map (\<lambda>w. (wf_pattern w, wf_frequency w, confidence w)) found)"
    by auto
  also have "\<dots> \<longleftrightarrow> (p, f, c) \<in> set (map (\<lambda>(k, e). (pattern e, frequency e, min (real (frequency e) / 10) 1))
         (filter (\<lambda>(k, e). 3 \<le> frequency e) m))"
    by (simp only: assms)
  also have "\<dots> \<longleftrightarrow> (\<exists>(k, e) \<in> set m. 3 \<le> frequency e \<and> pattern e = p \<and> frequency e = f
              \<and> min (real (frequency e) / 10) 1 = c)"
    by auto
  finally show ?thesis .
qed

lemma group_entry:
  assumes "(k, e) \<in> set (group_sequences seqs)"
  shows "join ''->'' (pattern e) = k"
    and "frequency e = length (filter (\<lambda>s. seq_key s = k) seqs)"
proof -
  have inv: "group_inv (group_sequences seqs)" by (rule group_sequences_inv)
  with assms have m: "map_of (group_sequences seqs) k = Some e"
    unfolding group_inv_def by simp
  with inv show "join ''->'' (pattern e) = k" unfolding group_inv_def by blast
  from m have "freq_of (group_sequences seqs) k = frequency e" by (simp add: freq_of_def)
  then show "frequency e = length (filter (\<lambda>s. seq_key s = k) seqs)"
    by (simp add: group_sequences_freq)
qed

lemma group_present:
  assumes "0 < length (filter (\<lambda>s. seq_key s = k) seqs)"
  shows "\<exists>e. (k, e) \<in> set (group_sequences seqs)
           \<and> frequency e = length (filter (\<lambda>s. seq_key s = k) seqs)"
proof -
  from assms have "0 < freq_of (group_sequences seqs) k" by (simp add: group_sequences_freq)
  then obtain e where e: "map_of (group_sequences seqs) k = Some e"
    by (auto simp: freq_of_def split: option.splits)
  then have "freq_of (group_sequences seqs) k = frequency e" by (simp add: freq_of_def)
  with e show ?thesis by (auto simp: group_sequences_freq dest: map_of_SomeD)
qed

lemma bex_image: "\<exists>w \<in> S. f w = k \<and> P w \<Longrightarrow> k \<in> f ` S"
  by auto

text \<open>
  Claim C6. For every navigation log, id supply and workflow store: every workflow that
  \<open>detectWorkflows\<close> returns has as frequency the occurrence count of its group (the
  candidate sequences whose URL chain joins to the same key), that count is at least 3,
  and its confidence is \<open>min (frequency / 10) 1\<close>; a group with exactly 2 occurrences
  has no workflow in the output; a group with exactly 3 occurrences has one, with
  frequency 3 and confidence 0.3.
\<close>

theorem detectWorkflows_threshold:
  "(\<forall>w \<in> set (fst (detectWorkflows fresh navHistory store)).
       wf_frequency w = occurrence_count navHistory (join ''->'' (wf_pattern w))
     \<and> 3 \<le> wf_frequency w
     \<and> confidence w = min (real (wf_frequency w) / 10) 1)
   \<and> (\<forall>key. occurrence_count navHistory key = 2 \<longrightarrow>
         key \<notin> (\<lambda>w. join ''->'' (wf_pattern w)) ` set (fst (detectWorkflows fresh navHistory store)))
   \<and> (\<forall>key. occurrence_count navHistory key = 3 \<longrightarrow>
         (\<exists>w \<in> set (fst (detectWorkflows fresh navHistory store)).
             join ''->'' (wf_pattern w) = key \<and> wf_frequency w = 3 \<and> confidence w = 3 / 10))"
proof -
  let ?out = "fst (detectWorkflows fresh navHistory store)"
  let ?seqs = "extractSequences navHistory 2 5"
  let ?m = "group_sequences ?seqs"
  from detectWorkflows_found[of fresh navHistory store] obtain found where
    out: "set ?out = set found"
    and found: "map (\<lambda>w. (wf_pattern w, wf_frequency w, confidence w)) found =
       map (\<lambda>(k, e). (pattern e, frequency e, min (real (frequency e) / 10) 1))
           (filter (\<lambda>(k, e). 3 \<le> frequency e) ?m)"
    by blast
  have a: "wf_frequency w = occurrence_count navHistory (join ''->'' (wf_pattern w))
     \<and> 3 \<le> wf_frequency w \<and> confidence w = min (real (wf_frequency w) / 10) 1"
    if "w \<in> set ?out" for w
  proof -
    from that out have "\<exists>w' \<in> set found. wf_pattern w' = wf_pattern w
        \<and> wf_frequency w' = wf_frequency w \<and> confidence w' = confidence w" by blast
    with in_found_iff[OF found] obtain k e where
      ke: "(k, e) \<in> set ?m" "3 \<le> frequency e" "pattern e = wf_pattern w"
        "frequency e = wf_frequency w" "min (real (frequency e) / 10) 1 = confidence w"
      by blast
    from group_entry[OF ke(1)] ke show ?thesis by (simp add: occurrence_count_def)
  qed
  have b: "key \<notin> (\<lambda>w. join ''->'' (wf_pattern w)) ` set ?out"
    if "occurrence_count navHistory key = 2" for key
  proof
    assume "key \<in> (\<lambda>w. join ''->'' (wf_pattern w)) ` set ?out"
    then obtain w where "w \<in> set ?out" "key = join ''->'' (wf_pattern w)" by blast
    with a[of w] that show False by simp
  qed
  have c: "\<exists>w \<in> set ?out. join ''->'' (wf_pattern w) = key \<and> wf_frequency w = 3
             \<and> confidence w = 3 / 10"
    if "occurrence_count navHistory key = 3" for key
  proof -
    from that have "0 < length (filter (\<lambda>s. seq_key s = key) ?seqs)"
      by (simp add: occurrence_count_def)
    from group_present[OF this] that obtain e where
      e: "(key, e) \<in> set ?m" "frequency e = 3" by (auto simp: occurrence_count_def)
    then have "\<exists>(k, e') \<in> set ?m. 3 \<le> frequency e' \<and> pattern e' = pattern e \<and> frequency e' = 3
              \<and> min (real (frequency e') / 10) 1 = 3 / 10"
      by (intro bexI[of _ "(key, e)"]) auto
    with in_found_iff[OF found] obtain w where
      w: "w \<in> set found" "wf_pattern w = pattern e" "wf_frequency w = 3" "confidence w = 3 / 10"
      by blast
    from w(1) out have "w \<in> set ?out" by simp
    moreover from group_entry(1)[OF e(1)] w(2) have "join ''->'' (wf_pattern w) = key" by simp
    ultimately show ?thesis using w(3,4) by (intro bexI[of _ w] conjI)
  qed
  from a b c show ?thesis by blast
qed

text \<open>In the example log the chain B, A occurs twice and the chain A, B three times.\<close>

lemma ex_counts:
  "occurrence_count ex_log ''B->A'' = 2" "occurrence_count ex_log ''A->B'' = 3"
  by code_simp+

theorem detectWorkflows_threshold_witness:
  "occurrence_count ex_log ''B->A'' = 2
   \<and> ''B->A'' \<notin> (\<lambda>w. join ''->'' (wf_pattern w)) ` set (fst (detectWorkflows (\<lambda>i. ''p1'') ex_log []))
   \<and> occurrence_count ex_log ''A->B'' = 3
   \<and> ''A->B'' \<in> (\<lambda>w. join ''->'' (wf_pattern w)) ` set (fst (detectWorkflows (\<lambda>i. ''p1'') ex_log []))"
proof -
  note th = detectWorkflows_threshold[of "\<lambda>i. ''p1''" ex_log "[]"]
  from th[THEN conjunct2, THEN conjunct1, THEN spec, THEN mp, OF ex_counts(1)]
  have a: "''B->A'' \<notin> (\<lambda>w. join ''->'' (wf_pattern w)) ` set (fst (detectWorkflows (\<lambda>i. ''p1'') ex_log []))" .
  from th[THEN conjunct2, THEN conjunct2, THEN spec, THEN mp, OF ex_counts(2)]
  have b: "''A->B'' \<in> (\<lambda>w. join ''->'' (wf_pattern w)) ` set (fst (detectWorkflows (\<lambda>i. ''p1'') ex_log []))"
    by (rule bex_image)
  from ex_counts a b show ?thesis by (intro conjI)
qed

text \<open>The mined workflows come ordered by frequency, highest first.\<close>

lemma detectWorkflows_sorted:
  "sorted_wrt (\<lambda>a b. wf_frequency b \<le> wf_frequency a) (fst (detectWorkflows fresh navHistory store))"
proof -
  have s: "sorted_wrt (\<lambda>a b. wf_frequency b \<le> wf_frequency a)
      (js_sort (\<lambda>a b. int (wf_frequency b) - int (wf_frequency a)) found)" for found
  proof -
    have "js_sort (\<lambda>a b. int (wf_frequency b) - int (wf_frequency a)) found
        = sort_key (\<lambda>w. - int (wf_frequency w)) found"
      by (rule js_sort_sort_key) auto
    moreover have "sorted (map (\<lambda>w. - int (wf_frequency w)) (sort_key (\<lambda>w. - int (wf_frequency w)) found))"
      by (rule sorted_sort_key)
    ultimately show ?thesis by (simp add: sorted_map_sorted_wrt)
  qed
  show ?thesis
    by (simp add: detectWorkflows_def Let_def s split: option.splits)
qed

text \<open>
  Claim C7, evaluated. Two mining passes over the same log, on an initially empty store:
  each pass draws a new id for the workflow of the chain A, B, and \<open>upsertWorkflow\<close>
  puts by id, so the store ends with two workflows for the one chain.
\<close>

theorem detectWorkflows_twice_duplicates:
  "map (\<lambda>w. (wf_id w, wf_pattern w, wf_frequency w))
     (snd (detectWorkflows (\<lambda>i. ''1700086400000_p0o9i8u7y'') ex_log
        (snd (detectWorkflows (\<lambda>i. ''1700000000000_k3j9x2m1q'') ex_log []))))
   = [(''workflow_1700000000000_k3j9x2m1q'', [''A'', ''B''], 3),
      (''workflow_1700086400000_p0o9i8u7y'', [''A'', ''B''], 3)]"
  by code_simp

section \<open>Properties of the ranking\<close>




lemma rank_key_le:
  "rank_key a \<le> rank_key b \<longleftrightarrow> ranks_before a b \<or> (score a = score b \<and> tab_id (sg_tab a) = tab_id (sg_tab b))"
  by (auto simp: rank_key_def ranks_before_def)


















section \<open>Properties of the text index\<close>

subsection \<open>Sets and counters\<close>

lemma set_foldl_set_add: "set (foldl set_add acc xs) = set acc \<union> set xs"
  by (induction xs arbitrary: acc) (auto simp: set_add_def)

lemma distinct_foldl_set_add: "distinct acc \<Longrightarrow> distinct (foldl set_add acc xs)"
  by (induction xs arbitrary: acc) (auto simp: set_add_def)

lemma set_new_Set: "set (new_Set xs) = set xs"
  by (simp add: new_Set_def set_foldl_set_add)

lemma distinct_new_Set: "distinct (new_Set xs)"
  by (simp add: new_Set_def distinct_foldl_set_add)

lemma get_or_count_up:
  "get_or 0 (count_up m term) t = (if t = term then get_or 0 m t + 1 else get_or 0 m t)"
  by (simp add: count_up_def get_or_def update_conv')

lemma get_or_foldl_count_up:
  "get_or 0 (foldl count_up m ts) t = get_or 0 m t + count_list ts t"
  by (induction ts arbitrary: m) (auto simp: get_or_count_up)

lemma distinct_count_up: "distinct (map fst m) \<Longrightarrow> distinct (map fst (count_up m term))"
  by (simp add: count_up_def distinct_update)

lemma distinct_foldl_count_up:
  "distinct (map fst m) \<Longrightarrow> distinct (map fst (foldl count_up m ts))"
  by (induction ts arbitrary: m) (auto simp: distinct_count_up)

subsection \<open>Document frequencies up and down\<close>

lemma map_of_df_up:
  "map_of (df_up df term) t = (if t = term then Some (stored df term + 1) else map_of df t)"
  by (auto simp: df_up_def stored_def Let_def update_conv' split: option.splits)

lemma distinct_df_up: "distinct (map fst df) \<Longrightarrow> distinct (map fst (df_up df term))"
  by (auto simp: df_up_def Let_def distinct_update split: option.splits)

lemma stored_df_up: "stored (df_up df term) t = (if t = term then stored df t + 1 else stored df t)"
  by (simp add: stored_def map_of_df_up)

lemma map_of_foldl_df_up:
  "distinct ts \<Longrightarrow>
   map_of (foldl df_up df ts) t = (if t \<in> set ts then Some (stored df t + 1) else map_of df t)"
proof (induction ts arbitrary: df)
  case Nil
  then show ?case by simp
next
  case (Cons a ts)
  then show ?case by (auto simp: map_of_df_up stored_df_up)
qed

lemma distinct_foldl_df_up:
  "distinct (map fst df) \<Longrightarrow> distinct (map fst (foldl df_up df ts))"
  by (induction ts arbitrary: df) (auto simp: distinct_df_up)

lemma df_down_Some:
  assumes "map_of df term = Some n"
  shows "\<exists>df'. df_down df term = Inr df'
           \<and> (\<forall>t. map_of df' t = (if t = term then (if n \<le> 1 then None else Some (n - 1))
                                    else map_of df t))
           \<and> (distinct (map fst df) \<longrightarrow> distinct (map fst df'))"
  using assms
  by (auto simp: df_down_def delete_conv' update_conv' distinct_delete distinct_update)

lemma df_down_all_spec:
  assumes "distinct ts" "\<forall>t \<in> set ts. map_of df t \<noteq> None" "distinct (map fst df)"
  shows "\<exists>df'. df_down_all df ts = Inr df'
           \<and> (\<forall>t. map_of df' t =
                 (if t \<in> set ts then (if stored df t \<le> 1 then None else Some (stored df t - 1))
                  else map_of df t))
           \<and> distinct (map fst df')"
  using assms
proof (induction ts arbitrary: df)
  case Nil
  then show ?case by simp
next
  case (Cons a ts)
  from Cons.prems(2) obtain n where n: "map_of df a = Some n" by auto
  from df_down_Some[OF n] Cons.prems(3) obtain df1 where
    df1: "df_down df a = Inr df1"
      "\<And>t. map_of df1 t = (if t = a then (if n \<le> 1 then None else Some (n - 1)) else map_of df t)"
      "distinct (map fst df1)"
    by blast
  have a: "a \<notin> set ts" "distinct ts" using Cons.prems(1) by auto
  have p: "\<forall>t \<in> set ts. map_of df1 t \<noteq> None"
    using Cons.prems(2) a(1) by (auto simp: df1(2))
  from Cons.IH[OF a(2) p df1(3)] obtain df' where
    df': "df_down_all df1 ts = Inr df'"
      "\<And>t. map_of df' t =
                 (if t \<in> set ts then (if stored df1 t \<le> 1 then None else Some (stored df1 t - 1))
                  else map_of df1 t)"
      "distinct (map fst df')"
    by blast
  have st: "\<And>t. t \<noteq> a \<Longrightarrow> stored df1 t = stored df t"
    by (simp add: stored_def df1(2))
  have "\<forall>t. map_of df' t =
                 (if t \<in> set (a # ts) then (if stored df t \<le> 1 then None else Some (stored df t - 1))
                  else map_of df t)"
    using a(1) n by (auto simp: df'(2) df1(2) st stored_def)
  with df1(1) df'(1) df'(3) show ?case by simp
qed

subsection \<open>Finding and removing by position\<close>

lemma findIndex_None: "findIndex P xs = None \<longleftrightarrow> (\<forall>x \<in> set xs. \<not> P x)"
  by (induction xs) auto

lemma findIndex_Some: "findIndex P xs = Some i \<Longrightarrow> i < length xs \<and> P (xs ! i)"
proof (induction xs arbitrary: i)
  case Nil
  then show ?case by simp
next
  case (Cons x xs)
  then show ?case by (cases "P x") auto
qed

lemma findIndex_append_last:
  "\<forall>x \<in> set xs. \<not> P x \<Longrightarrow> P y \<Longrightarrow> findIndex P (xs @ [y]) = Some (length xs)"
  by (induction xs) auto

lemma splice1_last: "splice1 (length xs) (xs @ [y]) = xs"
  by (simp add: splice1_def)

lemma map_splice1: "map f (splice1 i xs) = splice1 i (map f xs)"
  by (simp add: splice1_def take_map drop_map)

lemma set_splice1: "set (splice1 i xs) \<subseteq> set xs"
  by (auto simp: splice1_def dest: in_set_takeD in_set_dropD)

lemma filter_nth_pos: "i < length xs \<Longrightarrow> P (xs ! i) \<Longrightarrow> 0 < length (filter P xs)"
  by (induction xs arbitrary: i) (auto simp: nth_Cons split: nat.splits)

lemma filter_splice1:
  "i < length xs \<Longrightarrow>
   length (filter P (splice1 i xs)) = length (filter P xs) - (if P (xs ! i) then 1 else 0)"
proof (induction xs arbitrary: i)
  case Nil
  then show ?case by simp
next
  case (Cons x xs)
  show ?case
  proof (cases i)
    case 0
    then show ?thesis by (simp add: splice1_def)
  next
    case (Suc j)
    with Cons.prems have j: "j < length xs" by simp
    have sp: "splice1 (Suc j) (x # xs) = x # splice1 j xs" by (simp add: splice1_def)
    from filter_nth_pos[OF j, of P] Cons.IH[OF j] Suc show ?thesis
      by (auto simp: sp)
  qed
qed

lemma df_count_snoc:
  "df_count (rs @ [r]) t = df_count rs t + (if t \<in> set (terms r) then 1 else 0)"
  by (simp add: df_count_def)

lemma df_count_splice1:
  "i < length rs \<Longrightarrow>
   df_count (splice1 i rs) t = df_count rs t - (if t \<in> set (terms (rs ! i)) then 1 else 0)"
  unfolding df_count_def by (rule filter_splice1)

lemma df_count_pos: "i < length rs \<Longrightarrow> t \<in> set (terms (rs ! i)) \<Longrightarrow> 0 < df_count rs t"
  unfolding df_count_def by (rule filter_nth_pos)

lemma df_count_le: "df_count rs t \<le> length rs"
  by (simp add: df_count_def)

subsection \<open>The invariant holds in every reachable state\<close>

lemma index_inv_new: "index_inv new_TFIDF"
  by (simp add: index_inv_def new_TFIDF_def df_count_def)

lemma filterTerms_cong:
  "documents s' = documents s \<Longrightarrow> documentFreq s' = documentFreq s \<Longrightarrow>
   filterTerms s' ts = filterTerms s ts"
  by (simp add: filterTerms_def keepTerm_def isStopWord_def cong: filter_cong)

lemma add_shape:
  "\<exists>r. tf_id r = ident \<and> record_ok r
       \<and> termFreqs (addDocument body ident md s) = termFreqs s @ [r]
       \<and> documents (addDocument body ident md s)
           = documents s @ [\<lparr>d_id = ident, d_text = body, d_metadata = md\<rparr>]
       \<and> documentFreq (addDocument body ident md s)
           = foldl df_up (documentFreq s) (new_Set (terms r))
       \<and> globalTermFreq (addDocument body ident md s)
           = foldl count_up (globalTermFreq s) (tokenize body)
       \<and> totalTermCount (addDocument body ident md s) = totalTermCount s + length (tokenize body)"
proof -
  have e: "\<And>t. get_or 0 [] t = 0" by (simp add: get_or_def)
  show ?thesis
    unfolding addDocument_def Let_def
    by (simp add: record_ok_def get_or_foldl_count_up e del: foldl_append)
qed

lemma stored_inv:
  assumes "index_inv s"
  shows "stored (documentFreq s) t = df_count (termFreqs s) t"
  using assms by (simp add: index_inv_def stored_def)

lemma index_inv_add:
  assumes "index_inv s"
  shows "index_inv (addDocument body ident md s)"
proof -
  let ?s' = "addDocument body ident md s"
  from add_shape[of ident body md s] obtain r where
    r: "tf_id r = ident" "record_ok r" "termFreqs ?s' = termFreqs s @ [r]"
      "documents ?s' = documents s @ [\<lparr>d_id = ident, d_text = body, d_metadata = md\<rparr>]"
      "documentFreq ?s' = foldl df_up (documentFreq s) (new_Set (terms r))"
    by blast
  have a: "map d_id (documents ?s') = map tf_id (termFreqs ?s')"
    using assms r(1,3,4) by (simp add: index_inv_def)
  have b: "distinct (map fst (documentFreq ?s'))"
    using assms by (simp add: r(5) index_inv_def distinct_foldl_df_up)
  have c: "map_of (documentFreq ?s') t =
      (if df_count (termFreqs ?s') t = 0 then None else Some (df_count (termFreqs ?s') t))" for t
  proof (cases "t \<in> set (terms r)")
    case True
    then show ?thesis
      by (simp add: r(3,5) map_of_foldl_df_up distinct_new_Set set_new_Set
          stored_inv[OF assms] df_count_snoc)
  next
    case False
    with assms show ?thesis
      by (simp add: r(3,5) map_of_foldl_df_up distinct_new_Set set_new_Set
          df_count_snoc index_inv_def)
  qed
  have d: "\<forall>x \<in> set (termFreqs ?s'). record_ok x"
    using assms r(2) by (auto simp: r(3) index_inv_def)
  from a b c d show ?thesis unfolding index_inv_def by blast
qed

lemma remove_shape:
  assumes inv: "index_inv s"
    and idx: "findIndex (\<lambda>d. d_id d = ident) (documents s) = Some i"
  shows "\<exists>df'. removeDocument ident s =
            Inr (s\<lparr>documentFreq := df', documents := splice1 i (documents s),
                   termFreqs := splice1 i (termFreqs s)\<rparr>)
          \<and> distinct (map fst df')
          \<and> (\<forall>t. map_of df' t =
                (if df_count (splice1 i (termFreqs s)) t = 0 then None
                 else Some (df_count (splice1 i (termFreqs s)) t)))"
proof -
  let ?rs = "termFreqs s"
  let ?U = "new_Set (terms (?rs ! i))"
  from findIndex_Some[OF idx] have "i < length (documents s)" by simp
  moreover have "length (documents s) = length ?rs"
    using inv by (metis index_inv_def length_map)
  ultimately have i: "i < length ?rs" by simp
  have pres: "\<forall>t \<in> set ?U. map_of (documentFreq s) t \<noteq> None"
  proof
    fix t assume "t \<in> set ?U"
    then have "0 < df_count ?rs t" using df_count_pos[OF i] by (simp add: set_new_Set)
    with inv show "map_of (documentFreq s) t \<noteq> None" by (simp add: index_inv_def)
  qed
  have dist: "distinct (map fst (documentFreq s))" using inv by (simp add: index_inv_def)
  from df_down_all_spec[OF distinct_new_Set pres dist] obtain df' where
    df': "df_down_all (documentFreq s) ?U = Inr df'"
      "\<And>t. map_of df' t =
          (if t \<in> set ?U
           then (if stored (documentFreq s) t \<le> 1 then None else Some (stored (documentFreq s) t - 1))
           else map_of (documentFreq s) t)"
      "distinct (map fst df')"
    by blast
  have c: "map_of df' t =
      (if df_count (splice1 i ?rs) t = 0 then None else Some (df_count (splice1 i ?rs) t))" for t
  proof (cases "t \<in> set (terms (?rs ! i))")
    case True
    then show ?thesis
      by (auto simp: df'(2) set_new_Set stored_inv[OF inv] df_count_splice1[OF i])
  next
    case False
    with inv show ?thesis
      by (simp add: df'(2) set_new_Set df_count_splice1[OF i] index_inv_def)
  qed
  from idx i df'(1) have "removeDocument ident s =
            Inr (s\<lparr>documentFreq := df', documents := splice1 i (documents s),
                   termFreqs := splice1 i (termFreqs s)\<rparr>)"
    by (simp add: removeDocument_def Let_def)
  with df'(3) c show ?thesis by blast
qed

lemma removeDocument_unknown:
  "findIndex (\<lambda>d. d_id d = ident) (documents s) = None \<Longrightarrow> removeDocument ident s = Inr s"
  by (simp add: removeDocument_def)

lemma index_inv_remove:
  assumes inv: "index_inv s" and rm: "removeDocument ident s = Inr s'"
  shows "index_inv s'"
proof (cases "findIndex (\<lambda>d. d_id d = ident) (documents s)")
  case None
  with rm inv show ?thesis by (simp add: removeDocument_unknown)
next
  case (Some i)
  from remove_shape[OF inv Some] rm obtain df' where
    s': "s' = s\<lparr>documentFreq := df', documents := splice1 i (documents s),
                   termFreqs := splice1 i (termFreqs s)\<rparr>"
    and d: "distinct (map fst df')"
    and c: "\<And>t. map_of df' t =
                (if df_count (splice1 i (termFreqs s)) t = 0 then None
                 else Some (df_count (splice1 i (termFreqs s)) t))"
    by auto
  have a: "map d_id (splice1 i (documents s)) = map tf_id (splice1 i (termFreqs s))"
    using inv by (simp add: map_splice1 index_inv_def)
  have r: "\<forall>x \<in> set (splice1 i (termFreqs s)). record_ok x"
    using inv set_splice1[of i "termFreqs s"] by (auto simp: index_inv_def)
  from a d c r show ?thesis unfolding index_inv_def s' by simp
qed

lemma removeDocument_total:
  assumes "index_inv s"
  shows "\<exists>s'. removeDocument ident s = Inr s'"
proof (cases "findIndex (\<lambda>d. d_id d = ident) (documents s)")
  case None
  then show ?thesis by (simp add: removeDocument_unknown)
next
  case (Some i)
  from remove_shape[OF assms Some] show ?thesis by blast
qed

lemma reachable_inv: "reachable s \<Longrightarrow> index_inv s"
  by (induction rule: reachable.induct)
    (auto intro: index_inv_new index_inv_add index_inv_remove)

lemma findIndex_unknown:
  "ident \<notin> d_id ` set (documents s) \<Longrightarrow> findIndex (\<lambda>d. d_id d = ident) (documents s) = None"
  by (auto simp: findIndex_None)

text \<open>
  Claim C10. For every index state and every id that no stored document has,
  \<open>removeDocument\<close> returns the state it was given: the document list, the term
  records, the document-frequency map, the global term-frequency map and the total term
  count are unchanged, and \<open>bm25\<close> and \<open>cosineSimilarity\<close> answer as before.
\<close>

theorem removeDocument_unknown_noop:
  assumes "ident \<notin> d_id ` set (documents s)"
  shows "\<exists>s'. removeDocument ident s = Inr s' \<and> s' = s
           \<and> documents s' = documents s \<and> termFreqs s' = termFreqs s
           \<and> documentFreq s' = documentFreq s \<and> globalTermFreq s' = globalTermFreq s
           \<and> totalTermCount s' = totalTermCount s
           \<and> (\<forall>q d. bm25 s' q d = bm25 s q d)
           \<and> (\<forall>a b. cosineSimilarity s' a b = cosineSimilarity s a b)"
  using removeDocument_unknown[OF findIndex_unknown[OF assms]] by simp

lemma ex_corpus_ids: "map d_id (documents ex_corpus) = [1, 2, 3]"
  by code_simp

theorem removeDocument_unknown_noop_witness:
  "4 \<notin> d_id ` set (documents ex_corpus) \<and> removeDocument 4 ex_corpus = Inr ex_corpus"
proof -
  have "set (map d_id (documents ex_corpus)) = {1, 2, 3}" by (simp add: ex_corpus_ids)
  then have a: "4 \<notin> d_id ` set (documents ex_corpus)" by simp
  from removeDocument_unknown_noop[OF a] have "removeDocument 4 ex_corpus = Inr ex_corpus"
    by blast
  with a show ?thesis by (intro conjI)
qed

text \<open>
  Claim C3, as amended. For every reachable index state and every document whose id no
  stored document has, \<open>addDocument\<close> followed by \<open>removeDocument\<close> of that id
  succeeds and leaves the document-frequency map with exactly its earlier value at every
  term (absent where it was absent; no term is kept with count 0), the documents and the
  term records as they were, and the global term-frequency map and the total term count
  as \<open>addDocument\<close> left them: counted up by the tokens of the text.
\<close>

theorem add_then_remove_restores:
  assumes "reachable s" "ident \<notin> d_id ` set (documents s)"
  shows "\<exists>s'. removeDocument ident (addDocument body ident md s) = Inr s'
     \<and> map_of (documentFreq s') = map_of (documentFreq s)
     \<and> 0 \<notin> snd ` set (documentFreq s')
     \<and> documents s' = documents s \<and> termFreqs s' = termFreqs s
     \<and> globalTermFreq s' = globalTermFreq (addDocument body ident md s)
     \<and> globalTermFreq s' = foldl count_up (globalTermFreq s) (tokenize body)
     \<and> totalTermCount s' = totalTermCount s + length (tokenize body)"
proof -
  let ?s1 = "addDocument body ident md s"
  have inv: "index_inv s" using assms(1) by (rule reachable_inv)
  have inv1: "index_inv ?s1" using inv by (rule index_inv_add)
  from add_shape[of ident body md s] obtain r where
    r: "tf_id r = ident" "termFreqs ?s1 = termFreqs s @ [r]"
      "documents ?s1 = documents s @ [\<lparr>d_id = ident, d_text = body, d_metadata = md\<rparr>]"
      "globalTermFreq ?s1 = foldl count_up (globalTermFreq s) (tokenize body)"
      "totalTermCount ?s1 = totalTermCount s + length (tokenize body)"
    by blast
  have len: "length (documents s) = length (termFreqs s)"
    using inv by (metis index_inv_def length_map)
  have idx: "findIndex (\<lambda>d. d_id d = ident) (documents ?s1) = Some (length (documents s))"
    unfolding r(3) using assms(2) by (intro findIndex_append_last) auto
  from remove_shape[OF inv1 idx] obtain df' where
    rm: "removeDocument ident ?s1 =
            Inr (?s1\<lparr>documentFreq := df',
                    documents := splice1 (length (documents s)) (documents ?s1),
                    termFreqs := splice1 (length (documents s)) (termFreqs ?s1)\<rparr>)"
    and d: "distinct (map fst df')"
    and c: "\<And>t. map_of df' t =
                (if df_count (splice1 (length (documents s)) (termFreqs ?s1)) t = 0 then None
                 else Some (df_count (splice1 (length (documents s)) (termFreqs ?s1)) t))"
    by blast
  have sp: "splice1 (length (documents s)) (documents ?s1) = documents s"
    "splice1 (length (documents s)) (termFreqs ?s1) = termFreqs s"
    using splice1_last[of "documents s"] splice1_last[of "termFreqs s" r]
    by (simp_all only: r(2,3) len)
  have m: "map_of df' = map_of (documentFreq s)"
  proof
    fix t
    show "map_of df' t = map_of (documentFreq s) t"
      using inv by (simp add: c sp index_inv_def)
  qed
  have z: "0 \<notin> snd ` set df'"
  proof
    assume "0 \<in> snd ` set df'"
    then obtain k where "(k, 0) \<in> set df'" by force
    with d have "map_of df' k = Some 0" by simp
    then show False by (simp add: c split: if_splits)
  qed
  from rm m z sp r(4,5) show ?thesis by simp
qed

lemma reachable_ex_dup: "reachable ex_dup"
  unfolding ex_dup_def by (intro reach_add reach_new)

theorem add_then_remove_restores_witness:
  "reachable ex_dup \<and> 2 \<notin> d_id ` set (documents ex_dup)
   \<and> (case removeDocument 2 (addDocument ''gamma delta'' 2 [] ex_dup) of
         Inl e \<Rightarrow> False
       | Inr s' \<Rightarrow> map_of (documentFreq s') = map_of (documentFreq ex_dup)
                  \<and> totalTermCount s' = totalTermCount ex_dup + 2)"
proof -
  have a: "2 \<notin> d_id ` set (documents ex_dup)" by code_simp
  have l: "length (tokenize ''gamma delta'') = 2" by code_simp
  from add_then_remove_restores[OF reachable_ex_dup a, of "''gamma delta''" "[]"] l
  have "case removeDocument 2 (addDocument ''gamma delta'' 2 [] ex_dup) of
         Inl e \<Rightarrow> False
       | Inr s' \<Rightarrow> map_of (documentFreq s') = map_of (documentFreq ex_dup)
                  \<and> totalTermCount s' = totalTermCount ex_dup + 2"
    by auto
  with reachable_ex_dup a show ?thesis by (intro conjI)
qed

text \<open>
  Claim C3 as stated fails when the index already holds a document with the same id:
  \<open>removeDocument\<close> takes the first document with that id, here the older one. After
  adding "gamma delta" under the id 1 to the index of "alpha beta" (id 1) and removing
  id 1, the term gamma, which the added document contributed and which the index did not
  know before, has document frequency 1.
\<close>

theorem add_then_remove_same_id_counterexample:
  "reachable ex_dup
   \<and> map_of (documentFreq ex_dup) ''gamma'' = None
   \<and> (case removeDocument 1 (addDocument ''gamma delta'' 1 [] ex_dup) of
         Inl e \<Rightarrow> None
       | Inr s' \<Rightarrow> map_of (documentFreq s') ''gamma'') = Some 1"
proof -
  have a: "map_of (documentFreq ex_dup) ''gamma'' = None" by code_simp
  have b: "(case removeDocument 1 (addDocument ''gamma delta'' 1 [] ex_dup) of
         Inl e \<Rightarrow> None
       | Inr s' \<Rightarrow> map_of (documentFreq s') ''gamma'') = Some 1" by code_simp
  from reachable_ex_dup a b show ?thesis by (intro conjI)
qed

subsection \<open>BM25\<close>

lemma bm25_step_share:
  "bm25_step s doc k1 b acc t = acc + bm25_share s doc k1 b t"
  by (simp add: bm25_step_def bm25_share_def idf_bm25_def Let_def)

lemma foldl_bm25_step:
  "foldl (bm25_step s doc k1 b) acc ts = acc + (\<Sum>t\<leftarrow>ts. bm25_share s doc k1 b t)"
proof (induction ts arbitrary: acc)
  case Nil
  then show ?case by simp
next
  case (Cons a ts)
  have "foldl (bm25_step s doc k1 b) acc (a # ts)
      = foldl (bm25_step s doc k1 b) (bm25_step s doc k1 b acc a) ts" by simp
  also have "\<dots> = bm25_step s doc k1 b acc a + (\<Sum>t\<leftarrow>ts. bm25_share s doc k1 b t)"
    by (rule Cons.IH)
  also have "\<dots> = acc + (\<Sum>t\<leftarrow>a # ts. bm25_share s doc k1 b t)"
    by (simp add: bm25_step_share)
  finally show ?case .
qed

lemma bm25_found:
  assumes "find (\<lambda>r. tf_id r = d) (termFreqs s) = Some doc" "documents s \<noteq> []"
  shows "bm25 s q d = (\<Sum>t\<leftarrow>filterTerms s (tokenize q). bm25_share s doc 1.5 0.75 t)"
proof -
  have "bm25 s q d = foldl (bm25_step s doc 1.5 0.75) 0 (filterTerms s (tokenize q))"
    using assms by (simp add: bm25_def bm25_params_def Let_def)
  then show ?thesis by (simp only: foldl_bm25_step add_0)
qed

lemma bm25_unknown:
  "find (\<lambda>r. tf_id r = d) (termFreqs s) = None \<Longrightarrow> bm25 s q d = 0"
  by (simp add: bm25_def bm25_params_def Let_def)

lemma bm25_empty: "documents s = [] \<Longrightarrow> bm25 s q d = 0"
  by (simp add: bm25_def bm25_params_def Let_def split: option.splits)

lemma sum_list_zero: "(\<forall>x \<in> set xs. f x = 0) \<Longrightarrow> (\<Sum>x\<leftarrow>xs. f x) = (0::real)"
  by (induction xs) auto

lemma share_zero: "get_or 0 (termFreq doc) t = 0 \<Longrightarrow> bm25_share s doc k1 b t = 0"
  by (simp add: bm25_share_def)

lemma bm25_no_common_term:
  assumes "find (\<lambda>r. tf_id r = d) (termFreqs s) = Some doc"
    and "\<forall>t \<in> set (filterTerms s (tokenize q)). get_or 0 (termFreq doc) t = 0"
  shows "bm25 s q d = 0"
proof (cases "documents s = []")
  case True
  then show ?thesis by (rule bm25_empty)
next
  case False
  have "(\<Sum>t\<leftarrow>filterTerms s (tokenize q). bm25_share s doc 1.5 0.75 t) = 0"
    using assms(2) by (intro sum_list_zero ballI share_zero) blast
  with bm25_found[OF assms(1) False] show ?thesis by simp
qed

lemma share_nonneg:
  assumes "get_or 1 (documentFreq s) t \<le> length (documents s)" "0 \<le> avgDocLength s"
    and "0 \<le> k1" "0 \<le> b" "b \<le> 1"
  shows "0 \<le> bm25_share s doc k1 b t"
proof (cases "get_or 0 (termFreq doc) t = 0")
  case True
  then show ?thesis by (simp add: share_zero)
next
  case False
  define N where "N = real (length (documents s))"
  define df where "df = real (get_or 1 (documentFreq s) t)"
  define tf where "tf = real (get_or 0 (termFreq doc) t)"
  define x where "x = real (totalTerms doc) / avgDocLength s"
  have tf: "0 < tf" using False by (simp add: tf_def)
  have "df \<le> N" using assms(1) by (simp add: df_def N_def)
  moreover have "0 \<le> df" by (simp add: df_def)
  ultimately have "0 \<le> (N - df + 0.5) / (df + 0.5)" by simp
  then have l: "0 \<le> ln ((N - df + 0.5) / (df + 0.5) + 1)" by simp
  have x: "0 \<le> x" using assms(2) by (simp add: x_def)
  have "0 \<le> b * x" using assms(4) x by simp
  moreover have "0 \<le> 1 - b" using assms(5) by simp
  ultimately have "0 \<le> 1 - b + b * x" by linarith
  with assms(3) have "0 \<le> k1 * (1 - b + b * x)" by simp
  with tf have den: "0 < tf + k1 * (1 - b + b * x)" by linarith
  have num: "0 \<le> ln ((N - df + 0.5) / (df + 0.5) + 1) * (tf * (k1 + 1))"
    using l tf assms(3) by simp
  have "0 \<le> ln ((N - df + 0.5) / (df + 0.5) + 1) * (tf * (k1 + 1)) / (tf + k1 * (1 - b + b * x))"
    using num den by (intro divide_nonneg_pos)
  moreover have "bm25_share s doc k1 b t =
      ln ((N - df + 0.5) / (df + 0.5) + 1) * (tf * (k1 + 1)) / (tf + k1 * (1 - b + b * x))"
    using False unfolding bm25_share_def Let_def N_def df_def tf_def x_def by simp
  ultimately show ?thesis by simp
qed

lemma foldl_totalTerms:
  "foldl (\<lambda>acc d. acc + totalTerms d) a rs = a + sum_list (map totalTerms rs)"
  by (induction rs arbitrary: a) simp_all

lemma avgDocLength_nonneg: "0 \<le> avgDocLength s"
  by (simp add: avgDocLength_def)

lemma find_Some_mem: "find P xs = Some x \<Longrightarrow> x \<in> set xs \<and> P x"
  by (induction xs) (auto split: if_splits)

lemma inv_lengths: "index_inv s \<Longrightarrow> length (documents s) = length (termFreqs s)"
  by (metis index_inv_def length_map)

lemma inv_df_le:
  assumes "index_inv s" "termFreqs s \<noteq> []"
  shows "get_or 1 (documentFreq s) t \<le> length (documents s)"
proof -
  have n: "1 \<le> length (documents s)"
    using assms by (simp add: inv_lengths Suc_le_eq)
  have "map_of (documentFreq s) t =
      (if df_count (termFreqs s) t = 0 then None else Some (df_count (termFreqs s) t))"
    using assms(1) by (simp add: index_inv_def)
  moreover have "df_count (termFreqs s) t \<le> length (documents s)"
    using df_count_le[of "termFreqs s" t] assms(1) by (simp add: inv_lengths)
  ultimately show ?thesis using n by (simp add: get_or_def)
qed

lemma inv_avg_pos:
  assumes "index_inv s" "doc \<in> set (termFreqs s)" "get_or 0 (termFreq doc) t \<noteq> 0"
  shows "0 < avgDocLength s"
proof -
  have ok: "record_ok doc" using assms(1,2) by (simp add: index_inv_def)
  with assms(3) have "count_list (terms doc) t \<noteq> 0" by (simp add: record_ok_def)
  then have "terms doc \<noteq> []" by auto
  with ok have "1 \<le> totalTerms doc" by (simp add: record_ok_def Suc_le_eq)
  moreover have "totalTerms doc \<le> sum_list (map totalTerms (termFreqs s))"
    using assms(2) by (simp add: member_le_sum_list)
  ultimately have "0 < sum_list (map totalTerms (termFreqs s))" by linarith
  moreover have "0 < length (documents s)"
    using assms(1,2) by (auto simp: inv_lengths)
  ultimately show ?thesis by (simp add: avgDocLength_def foldl_totalTerms)
qed

lemma bm25_nonneg_inv:
  assumes "index_inv s"
  shows "0 \<le> bm25 s q d"
proof (cases "find (\<lambda>r. tf_id r = d) (termFreqs s)")
  case None
  then show ?thesis by (simp add: bm25_unknown)
next
  case (Some doc)
  then have ne: "termFreqs s \<noteq> []" by (auto dest: find_Some_mem)
  then have docs: "documents s \<noteq> []" using assms by (auto dest: inv_lengths)
  have "0 \<le> bm25_share s doc 1.5 0.75 t" for t
    by (rule share_nonneg[OF inv_df_le[OF assms ne] avgDocLength_nonneg]) simp_all
  then have "0 \<le> (\<Sum>t\<leftarrow>filterTerms s (tokenize q). bm25_share s doc 1.5 0.75 t)"
    by (intro sum_list_nonneg) auto
  with bm25_found[OF Some docs] show ?thesis by simp
qed

text \<open>
  Claim C5. For every query text and document id: in every reachable index state the BM25
  score is not negative; in every index state it is 0 when no term record has the id,
  when the corpus is empty, and when no filtered query term has a count in the
  document's term-frequency map; otherwise it is the sum, over the filtered query terms
  in order, of \<open>bm25_share\<close> with \<open>k1 = 1.5\<close> and \<open>b = 0.75\<close>. In a reachable
  state a contributing term finds a positive average document length and a document
  frequency of at most the number of documents, so the quotient and the logarithm are
  those of the source.
\<close>

theorem bm25_nonneg_and_shares:
  "(reachable s \<longrightarrow> 0 \<le> bm25 s q d)
   \<and> (find (\<lambda>r. tf_id r = d) (termFreqs s) = None \<longrightarrow> bm25 s q d = 0)
   \<and> (documents s = [] \<longrightarrow> bm25 s q d = 0)
   \<and> (\<forall>doc. find (\<lambda>r. tf_id r = d) (termFreqs s) = Some doc \<longrightarrow>
          ((\<forall>t \<in> set (filterTerms s (tokenize q)). get_or 0 (termFreq doc) t = 0)
              \<longrightarrow> bm25 s q d = 0)
        \<and> (documents s \<noteq> [] \<longrightarrow>
              bm25 s q d = (\<Sum>t\<leftarrow>filterTerms s (tokenize q). bm25_share s doc 1.5 0.75 t))
        \<and> (reachable s \<longrightarrow>
              (\<forall>t. get_or 0 (termFreq doc) t \<noteq> 0 \<longrightarrow>
                   0 < avgDocLength s
                 \<and> get_or 1 (documentFreq s) t \<le> length (documents s))))"
proof (intro conjI impI allI)
  assume "reachable s"
  then show "0 \<le> bm25 s q d" by (intro bm25_nonneg_inv reachable_inv)
next
  assume "find (\<lambda>r. tf_id r = d) (termFreqs s) = None"
  then show "bm25 s q d = 0" by (rule bm25_unknown)
next
  assume "documents s = []"
  then show "bm25 s q d = 0" by (rule bm25_empty)
next
  fix doc
  assume f: "find (\<lambda>r. tf_id r = d) (termFreqs s) = Some doc"
  {
    assume "\<forall>t \<in> set (filterTerms s (tokenize q)). get_or 0 (termFreq doc) t = 0"
    with f show "bm25 s q d = 0" by (rule bm25_no_common_term)
  }
  {
    assume "documents s \<noteq> []"
    with f show "bm25 s q d = (\<Sum>t\<leftarrow>filterTerms s (tokenize q). bm25_share s doc 1.5 0.75 t)"
      by (rule bm25_found)
  }
  {
    fix t
    assume r: "reachable s" and t: "get_or 0 (termFreq doc) t \<noteq> 0"
    from f have m: "doc \<in> set (termFreqs s)" by (auto dest: find_Some_mem)
    from inv_avg_pos[OF reachable_inv[OF r] m t] show "0 < avgDocLength s" .
    from m have "termFreqs s \<noteq> []" by auto
    from inv_df_le[OF reachable_inv[OF r] this]
    show "get_or 1 (documentFreq s) t \<le> length (documents s)" .
  }
qed

lemma reachable_ex_corpus: "reachable ex_corpus"
  unfolding ex_corpus_def by (intro reach_add reach_new)

text \<open>
  In the three-document corpus the query "apple" scores \<open>ln (8 / 3)\<close> against
  document 1 and 0 against the unknown id 4.
\<close>

lemma ex_corpus_facts:
  "find (\<lambda>r. tf_id r = 1) (termFreqs ex_corpus) = Some (hd (termFreqs ex_corpus))"
  "find (\<lambda>r. tf_id r = 4) (termFreqs ex_corpus) = None"
  "filterTerms ex_corpus (tokenize ''apple'') = [''apple'']"
  "get_or 0 (termFreq (hd (termFreqs ex_corpus))) ''apple'' = 1"
  "totalTerms (hd (termFreqs ex_corpus)) = 6"
  "length (documents ex_corpus) = 3"
  "get_or 1 (documentFreq ex_corpus) ''apple'' = 1"
  "foldl (\<lambda>acc d. acc + totalTerms d) 0 (termFreqs ex_corpus) = 18"
  by code_simp+

lemma ex_corpus_bm25: "bm25 ex_corpus ''apple'' 1 = ln (8 / 3)"
proof -
  have d: "documents ex_corpus \<noteq> []" using ex_corpus_facts(6) by auto
  have a: "avgDocLength ex_corpus = 6"
    by (simp add: avgDocLength_def ex_corpus_facts)
  have g: "get_or (Suc 0) (documentFreq ex_corpus) ''apple'' = 1"
    using ex_corpus_facts(7) by simp
  show ?thesis
    by (simp add: bm25_found[OF ex_corpus_facts(1) d] ex_corpus_facts bm25_share_def a g Let_def)
qed

theorem bm25_nonneg_and_shares_witness:
  "reachable ex_corpus \<and> 0 \<le> bm25 ex_corpus ''apple'' 1
   \<and> find (\<lambda>r. tf_id r = 4) (termFreqs ex_corpus) = None \<and> bm25 ex_corpus ''apple'' 4 = 0
   \<and> bm25 ex_corpus ''apple'' 1 = ln (8 / 3)"
proof -
  note th = bm25_nonneg_and_shares[of ex_corpus "''apple''"]
  from th[of 1, THEN conjunct1, THEN mp, OF reachable_ex_corpus]
  have a: "0 \<le> bm25 ex_corpus ''apple'' 1" .
  from th[of 4, THEN conjunct2, THEN conjunct1, THEN mp, OF ex_corpus_facts(2)]
  have b: "bm25 ex_corpus ''apple'' 4 = 0" .
  from reachable_ex_corpus a ex_corpus_facts(2) b ex_corpus_bm25 show ?thesis by (intro conjI)
qed

subsection \<open>Serialisation round trip\<close>

lemma update_fresh: "k \<notin> fst ` set al \<Longrightarrow> AList.update k v al = al @ [(k, v)]"
  by (induction al) auto

lemma foldl_update_fresh:
  "distinct (map fst ps) \<Longrightarrow> fst ` set acc \<inter> fst ` set ps = {} \<Longrightarrow>
   foldl (\<lambda>m p. AList.update (fst p) (snd p) m) acc ps = acc @ ps"
proof (induction ps arbitrary: acc)
  case Nil
  then show ?case by simp
next
  case (Cons p ps)
  have f: "fst p \<notin> fst ` set acc" using Cons.prems(2) by auto
  have d: "distinct (map fst ps)" using Cons.prems(1) by simp
  have i: "fst ` set (acc @ [p]) \<inter> fst ` set ps = {}"
    using Cons.prems by auto
  show ?case
    using Cons.IH[OF d i] by (simp add: update_fresh[OF f])
qed

lemma new_Map_id: "distinct (map fst m) \<Longrightarrow> new_Map m = m"
  unfolding new_Map_def using foldl_update_fresh[of m "[]"] by simp

lemma those_map_Some:
  "(\<And>x. x \<in> set xs \<Longrightarrow> f (g x) = Some x) \<Longrightarrow> those (map (f \<circ> g) xs) = Some xs"
  by (induction xs) simp_all


lemma pair_roundtrip: "pair_of_json (pair_json p) = Some p"
  by (cases p) (simp add: pair_json_def)

lemma pairs_roundtrip: "those (map (pair_of_json \<circ> pair_json) m) = Some m"
  by (rule those_map_Some) (rule pair_roundtrip)

lemma counts_roundtrip: "distinct (map fst m) \<Longrightarrow> counts_of_json (counts_json m) = Some m"
  by (simp add: counts_of_json_def counts_json_def pairs_roundtrip new_Map_id)

lemma document_roundtrip: "document_of_json (document_json d) = Some d"
  by (simp add: document_of_json_def document_json_def)

lemma strings_roundtrip: "those (map (as_str \<circ> JStr) ts) = Some ts"
  by (rule those_map_Some) simp

lemma doc_terms_roundtrip:
  "distinct (map fst (termFreq r)) \<Longrightarrow> doc_terms_of_json (doc_terms_json r) = Some r"
  by (simp add: doc_terms_of_json_def doc_terms_json_def counts_roundtrip strings_roundtrip
      or_default_def)

lemma deserialize_serialize:
  assumes "maps_wellformed x"
  shows "deserialize (serialize x) = Some x"
proof -
  have d: "those (map (document_of_json \<circ> document_json) (documents x)) = Some (documents x)"
    by (rule those_map_Some) (rule document_roundtrip)
  have r: "those (map (doc_terms_of_json \<circ> doc_terms_json) (termFreqs x)) = Some (termFreqs x)"
    using assms by (intro those_map_Some doc_terms_roundtrip) (simp add: maps_wellformed_def)
  have c: "counts_of_json (counts_json (documentFreq x)) = Some (documentFreq x)"
    "counts_of_json (counts_json (globalTermFreq x)) = Some (globalTermFreq x)"
    using assms by (simp_all add: counts_roundtrip maps_wellformed_def)
  have g: "or_default (Some (counts_json (globalTermFreq x))) (JArr []) = counts_json (globalTermFreq x)"
    by (simp add: or_default_def counts_json_def)
  have n: "as_nat (or_default (Some (JNum (int (totalTermCount x)))) (JNum 0)) = Some (totalTermCount x)"
    by (simp add: or_default_def)
  show ?thesis
    by (simp add: deserialize_def serialize_def d r c g n)
qed

text \<open>
  Claim C4. For every index whose maps have each key once, \<open>deserialize\<close> of
  \<open>serialize\<close> succeeds and gives the index back: the documents, the
  document-frequency map, the global term-frequency map, the total term count and the
  term records are the same, and so are \<open>bm25\<close> for every query and document id and
  \<open>cosineSimilarity\<close> for every pair of ids.
\<close>

theorem serialize_roundtrip:
  assumes "maps_wellformed x"
  shows "\<exists>y. deserialize (serialize x) = Some y \<and> y = x
           \<and> documents y = documents x \<and> documentFreq y = documentFreq x
           \<and> globalTermFreq y = globalTermFreq x \<and> totalTermCount y = totalTermCount x
           \<and> termFreqs y = termFreqs x
           \<and> (\<forall>q d. bm25 y q d = bm25 x q d)
           \<and> (\<forall>a b. cosineSimilarity y a b = cosineSimilarity x a b)"
  using deserialize_serialize[OF assms] by simp

text \<open>Every index built by \<open>addDocument\<close> and \<open>removeDocument\<close> has such maps.\<close>

lemma reachable_maps_wellformed: "reachable s \<Longrightarrow> maps_wellformed s"
proof (induction rule: reachable.induct)
  case reach_new
  then show ?case by (simp add: maps_wellformed_def new_TFIDF_def)
next
  case (reach_add s body ident metadata)
  have e: "distinct (map fst ([] :: counts))" by simp
  from reach_add.IH distinct_foldl_count_up[OF e] show ?case
    unfolding maps_wellformed_def addDocument_def Let_def
    by (simp add: distinct_foldl_count_up distinct_foldl_df_up del: foldl_append)
next
  case (reach_remove s ident s')
  show ?case
  proof (cases "findIndex (\<lambda>d. d_id d = ident) (documents s)")
    case None
    with reach_remove show ?thesis by (simp add: removeDocument_unknown)
  next
    case (Some i)
    from remove_shape[OF reachable_inv[OF reach_remove.hyps(1)] Some] reach_remove.hyps(2)
    obtain df' where
      s': "s' = s\<lparr>documentFreq := df', documents := splice1 i (documents s),
                   termFreqs := splice1 i (termFreqs s)\<rparr>"
      and d: "distinct (map fst df')"
      by auto
    from reach_remove.IH d set_splice1[of i "termFreqs s"] show ?thesis
      unfolding maps_wellformed_def s' by auto
  qed
qed

theorem serialize_roundtrip_witness:
  "maps_wellformed ex_corpus \<and> deserialize (serialize ex_corpus) = Some ex_corpus"
proof -
  have w: "maps_wellformed ex_corpus"
    using reachable_ex_corpus by (rule reachable_maps_wellformed)
  from serialize_roundtrip[OF w] have "deserialize (serialize ex_corpus) = Some ex_corpus"
    by blast
  with w show ?thesis by (intro conjI)
qed

end
